theory Spec2Isabelle
  imports
    Main
    "HOL-Library.List_Lexorder"
    "HOL-Library.Product_Lexorder"
begin

section \<open>The directory-tree renderer of tools/gen.DIR.txt.py\<close>

text \<open>
  The program reads a directory hierarchy through \<^verbatim>\<open>Path.iterdir\<close>, \<^verbatim>\<open>Path.is_dir\<close> and
  \<^verbatim>\<open>Path.name\<close> and renders it as lines of text. The embedding makes the filesystem an
  explicit value and every exception a value of a sum type.
\<close>

subsection \<open>Strings\<close>

text \<open>
  A Python \<^verbatim>\<open>str\<close> is a sequence of code points. Python compares strings code point by
  code point, a proper prefix being smaller: the order \<^theory_text>\<open>List_Lexorder\<close> gives to lists of
  naturals. \<open>lit\<close> is the \<^verbatim>\<open>str\<close> of an ASCII literal.
\<close>

type_synonym str = "nat list"

definition lit :: "string \<Rightarrow> str" where
  "lit s = map of_char s"

lemma lit_eq_iff [simp]: "lit s = lit t \<longleftrightarrow> s = t"
  by (simp add: lit_def inj_map_eq_map[OF inj_of_char])

lemma lit_Nil [simp]: "lit [] = []" "lit s = [] \<longleftrightarrow> s = []"
  by (simp_all add: lit_def)

lemma lit_append [simp]: "lit s @ lit t = lit (s @ t)" "lit s @ lit t @ r = lit (s @ t) @ r"
  by (simp_all add: lit_def)

text \<open>
  \<^verbatim>\<open>str.lower\<close>. On a string of ASCII characters it maps \<^verbatim>\<open>A..Z\<close> to \<^verbatim>\<open>a..z\<close> and leaves every
  other character. On any other string it is what the Unicode database of the runtime makes
  it; the database is not part of the program, so that part is the parameter \<open>ul\<close>.
\<close>

definition ascii_lower :: "nat \<Rightarrow> nat" where
  "ascii_lower c = (if 0x41 \<le> c \<and> c \<le> 0x5A then c + 32 else c)"

definition lower :: "(str \<Rightarrow> str) \<Rightarrow> str \<Rightarrow> str" where
  "lower ul s = (if list_all (\<lambda>c. c < 128) s then map ascii_lower s else ul s)"

definition startswith :: "str \<Rightarrow> str \<Rightarrow> bool" where
  "startswith s p = (take (length p) s = p)"

text \<open>
  \<^verbatim>\<open>str.strip()\<close> removes, at both ends, the code points for which \<^verbatim>\<open>str.isspace\<close> holds.
\<close>

definition isspace :: "nat \<Rightarrow> bool" where
  "isspace c =
     (c \<in> {0x09, 0x0A, 0x0B, 0x0C, 0x0D, 0x1C, 0x1D, 0x1E, 0x1F, 0x20, 0x85, 0xA0, 0x1680,
            0x2000, 0x2001, 0x2002, 0x2003, 0x2004, 0x2005, 0x2006, 0x2007, 0x2008, 0x2009,
            0x200A, 0x2028, 0x2029, 0x202F, 0x205F, 0x3000})"

definition strip :: "str \<Rightarrow> str" where
  "strip s = rev (dropWhile isspace (rev (dropWhile isspace s)))"

subsection \<open>Filesystem entries\<close>

text \<open>
  What a filesystem call can raise. \<^verbatim>\<open>PermissionError\<close> is the one exception class the
  program names; \<^verbatim>\<open>OtherOSError\<close> stands for every \<^verbatim>\<open>OSError\<close> that is none of the three
  others and that \<^verbatim>\<open>pathlib\<close> does not ignore.
\<close>

datatype os_error = PermissionError | FileNotFoundError | NotADirectoryError | OtherOSError

text \<open>
  An entry of the filesystem, as the program observes it:
  \<^item> a file, with its name;
  \<^item> a directory, with its name and the entries \<^verbatim>\<open>iterdir\<close> yields, in the order the operating
    system yields them;
  \<^item> a directory whose enumeration raises;
  \<^item> an entry on which \<^verbatim>\<open>stat\<close> fails, with its name and the error: \<^verbatim>\<open>Path.is_dir\<close> returns
    \<^verbatim>\<open>False\<close> where \<^verbatim>\<open>stat\<close> fails with \<^verbatim>\<open>ENOENT\<close> or \<^verbatim>\<open>ENOTDIR\<close> (and with \<^verbatim>\<open>EBADF\<close> or
    \<^verbatim>\<open>ELOOP\<close>, which are not told apart from \<^verbatim>\<open>ENOENT\<close> here) and raises what \<^verbatim>\<open>stat\<close> raises
    otherwise, as it does with \<^verbatim>\<open>EACCES\<close> for the entries of a directory that may be read
    and not searched. Enumerating such an entry fails in the same way.

  The hierarchy is a finite tree and an entry keeps its kind and its name during a run: a
  cycle of symbolic links is outside the model, as is the depth limit of the host's call
  stack.
\<close>

datatype node =
    File str
  | Dir str "node list"
  | Unlistable str os_error
  | NoStat str os_error

fun name :: "node \<Rightarrow> str" where
  "name (File n) = n"
| "name (Dir n cs) = n"
| "name (Unlistable n e) = n"
| "name (NoStat n e) = n"

fun is_dir :: "node \<Rightarrow> os_error + bool" where
  "is_dir (File n) = Inr False"
| "is_dir (Dir n cs) = Inr True"
| "is_dir (Unlistable n e) = Inr True"
| "is_dir (NoStat n e) =
     (if e = FileNotFoundError \<or> e = NotADirectoryError then Inr False else Inl e)"

fun iterdir :: "node \<Rightarrow> os_error + node list" where
  "iterdir (File n) = Inl NotADirectoryError"
| "iterdir (Dir n cs) = Inr cs"
| "iterdir (Unlistable n e) = Inl e"
| "iterdir (NoStat n e) = Inl e"

subsection \<open>Constants\<close>

definition DEFAULT_IGNORE_DIRS :: "str set" where
  "DEFAULT_IGNORE_DIRS =
     {lit ''.git'', lit ''.vscode'', lit ''.venv'', lit ''venv'', lit ''__pycache__'',
      lit ''node_modules'', lit ''dist'', lit ''build'', lit ''.pytest_cache'',
      lit ''.mypy_cache'', lit ''.ruff_cache''}"

definition DEFAULT_IGNORE_FILES :: "str set" where
  "DEFAULT_IGNORE_FILES = {lit ''.DS_Store''}"

definition INCLUDE_HIDDEN :: bool where
  "INCLUDE_HIDDEN = True"

text \<open>
  The four glyph strings of \<^verbatim>\<open>render_tree\<close>: the corner and the tee, each followed by two
  horizontal bars and a space; four spaces; the vertical bar followed by three spaces.
\<close>

definition corner :: str where
  "corner = [0x2514, 0x2500, 0x2500, 0x20]"

definition tee :: str where
  "tee = [0x251C, 0x2500, 0x2500, 0x20]"

definition blank :: str where
  "blank = lit ''    ''"

definition pipe :: str where
  "pipe = [0x2502, 0x20, 0x20, 0x20]"

subsection \<open>should_ignore\<close>

definition should_ignore :: "node \<Rightarrow> os_error + bool" where
  "should_ignore path =
     (let name = name path in
      case is_dir path of
        Inl e \<Rightarrow> Inl e
      | Inr d \<Rightarrow>
          if d then
            (if name \<in> DEFAULT_IGNORE_DIRS then Inr True
             else if \<not> INCLUDE_HIDDEN \<and> startswith name (lit ''.'') then Inr True
             else Inr False)
          else
            (if name \<in> DEFAULT_IGNORE_FILES then Inr True
             else if \<not> INCLUDE_HIDDEN \<and> startswith name (lit ''.'') then Inr True
             else Inr False))"

subsection \<open>list_children_sorted\<close>

text \<open>
  The comprehension \<^verbatim>\<open>[c for c in children if not should_ignore(c)]\<close>: it stops at the first
  child on which \<^verbatim>\<open>should_ignore\<close> raises.
\<close>

fun keep_children :: "node list \<Rightarrow> os_error + node list" where
  "keep_children [] = Inr []"
| "keep_children (c # cs) =
     (case should_ignore c of
        Inl e \<Rightarrow> Inl e
      | Inr ignore \<Rightarrow>
          (case keep_children cs of
             Inl e \<Rightarrow> Inl e
           | Inr kept \<Rightarrow> Inr (if ignore then kept else c # kept)))"

text \<open>
  The sort key of a child: \<^verbatim>\<open>(0 if x.is_dir() else 1, x.name.lower())\<close>. \<^verbatim>\<open>list.sort\<close> computes
  the key of every element once, in order, before it sorts; it compares the tuples
  lexicographically and is stable, as \<^const>\<open>sort_key\<close> is.
\<close>

definition sort_key_of :: "(str \<Rightarrow> str) \<Rightarrow> node \<Rightarrow> os_error + nat \<times> str" where
  "sort_key_of ul x =
     (case is_dir x of
        Inl e \<Rightarrow> Inl e
      | Inr d \<Rightarrow> Inr (if d then 0 else 1, lower ul (name x)))"

fun keys_of :: "(str \<Rightarrow> str) \<Rightarrow> node list \<Rightarrow> os_error + (nat \<times> str) list" where
  "keys_of ul [] = Inr []"
| "keys_of ul (c # cs) =
     (case sort_key_of ul c of
        Inl e \<Rightarrow> Inl e
      | Inr k \<Rightarrow> (case keys_of ul cs of Inl e \<Rightarrow> Inl e | Inr ks \<Rightarrow> Inr (k # ks)))"

definition sort_children :: "(str \<Rightarrow> str) \<Rightarrow> node list \<Rightarrow> os_error + node list" where
  "sort_children ul children =
     (case keys_of ul children of
        Inl e \<Rightarrow> Inl e
      | Inr keys \<Rightarrow> Inr (map snd (sort_key fst (zip keys children))))"

definition list_children_sorted :: "(str \<Rightarrow> str) \<Rightarrow> node \<Rightarrow> os_error + node list" where
  "list_children_sorted ul p =
     (case iterdir p of
        Inl e \<Rightarrow> (if e = PermissionError then Inr [] else Inl e)
      | Inr children \<Rightarrow>
          (case keep_children children of
             Inl e \<Rightarrow> Inl e
           | Inr children \<Rightarrow> sort_children ul children))"

text \<open>
  Two total views of an entry, for the statements below: the entry is kept by the filter
  (\<^verbatim>\<open>should_ignore\<close> returns \<^verbatim>\<open>False\<close>), and its sort key where \<^verbatim>\<open>is_dir\<close> returns.
\<close>

definition visible :: "node \<Rightarrow> bool" where
  "visible c = (should_ignore c = Inr False)"

definition key :: "(str \<Rightarrow> str) \<Rightarrow> node \<Rightarrow> nat \<times> str" where
  "key ul c = (if is_dir c = Inr True then 0 else 1, lower ul (name c))"

lemma should_ignore_Inl: "should_ignore c = Inl e \<longleftrightarrow> is_dir c = Inl e"
  by (auto simp: should_ignore_def Let_def split: sum.splits)

lemma keep_children_Inr:
  "keep_children cs = Inr kept \<longleftrightarrow>
     (\<forall>c \<in> set cs. \<exists>b. is_dir c = Inr b) \<and> kept = filter visible cs"
proof (induction cs arbitrary: kept)
  case Nil
  show ?case by auto
next
  case (Cons c cs)
  show ?case
  proof (cases "should_ignore c")
    case (Inl e)
    then have "is_dir c = Inl e" by (simp add: should_ignore_Inl)
    with Inl show ?thesis by auto
  next
    case (Inr b)
    then obtain d where d: "is_dir c = Inr d"
      by (cases "is_dir c") (auto simp: should_ignore_Inl[symmetric])
    show ?thesis
    proof (cases "keep_children cs")
      case (Inl e)
      with Cons.IH[of "filter visible cs"] Inr d show ?thesis by auto
    next
      case r: (Inr r)
      with Cons.IH[of r] Inr d show ?thesis by (auto simp: visible_def)
    qed
  qed
qed

lemma keep_children_Inl:
  "keep_children cs = Inl e \<Longrightarrow> \<exists>c \<in> set cs. is_dir c = Inl e"
  by (induction cs) (auto simp: should_ignore_Inl split: sum.splits)

lemma keys_of_Inr:
  "keys_of ul cs = Inr ks \<longleftrightarrow> (\<forall>c \<in> set cs. \<exists>b. is_dir c = Inr b) \<and> ks = map (key ul) cs"
proof (induction cs arbitrary: ks)
  case Nil
  show ?case by auto
next
  case (Cons c cs)
  show ?case
  proof (cases "is_dir c")
    case (Inl e)
    then show ?thesis by (auto simp: sort_key_of_def)
  next
    case (Inr d)
    show ?thesis
    proof (cases "keys_of ul cs")
      case (Inl e)
      with Cons.IH[of "map (key ul) cs"] Inr show ?thesis by (auto simp: sort_key_of_def)
    next
      case r: (Inr r)
      with Cons.IH[of r] Inr show ?thesis by (auto simp: sort_key_of_def key_def)
    qed
  qed
qed

lemma keys_of_Inl: "keys_of ul cs = Inl e \<Longrightarrow> \<exists>c \<in> set cs. is_dir c = Inl e"
  by (induction cs) (auto simp: sort_key_of_def split: sum.splits)

lemma insort_key_map:
  "insort_key f (g x) (map g xs) = map g (insort_key (\<lambda>y. f (g y)) x xs)"
  by (induction xs) auto

lemma sort_key_map: "sort_key f (map g xs) = map g (sort_key (\<lambda>y. f (g y)) xs)"
  by (induction xs) (auto simp: insort_key_map)

lemma sort_decorated: "map snd (sort_key fst (zip (map f xs) xs)) = sort_key f xs"
proof -
  have "zip (map f xs) xs = map (\<lambda>x. (f x, x)) xs" by (induction xs) auto
  then show ?thesis by (simp add: sort_key_map comp_def)
qed

lemma sort_children_Inr:
  "sort_children ul cs = Inr r \<longleftrightarrow>
     (\<forall>c \<in> set cs. \<exists>b. is_dir c = Inr b) \<and> r = sort_key (key ul) cs"
proof (cases "keys_of ul cs")
  case (Inl e)
  with keys_of_Inr[of ul cs "map (key ul) cs"] show ?thesis by (auto simp: sort_children_def)
next
  case (Inr ks)
  with keys_of_Inr[of ul cs ks] show ?thesis by (auto simp: sort_children_def sort_decorated)
qed

text \<open>
  What \<^const>\<open>list_children_sorted\<close> returns for a directory that can be enumerated: the
  entries the filter keeps, sorted by their keys, when \<^verbatim>\<open>is_dir\<close> returns on every entry;
  otherwise what \<^verbatim>\<open>is_dir\<close> raises.
\<close>

lemma list_children_sorted_Dir:
  "list_children_sorted ul (Dir n cs0) = Inr cs \<longleftrightarrow>
     (\<forall>c \<in> set cs0. \<exists>b. is_dir c = Inr b) \<and> cs = sort_key (key ul) (filter visible cs0)"
proof (cases "keep_children cs0")
  case (Inl e)
  with keep_children_Inr[of cs0 "filter visible cs0"] show ?thesis
    by (auto simp: list_children_sorted_def)
next
  case (Inr kept)
  with keep_children_Inr[of cs0 kept] show ?thesis
    by (auto simp: list_children_sorted_def sort_children_Inr)
qed

lemma list_children_sorted_Dir_Inl:
  "list_children_sorted ul (Dir n cs0) = Inl e \<Longrightarrow> \<exists>c \<in> set cs0. is_dir c = Inl e"
  by (auto simp: list_children_sorted_def sort_children_def
      split: sum.splits dest!: keep_children_Inl keys_of_Inl
      simp: keep_children_Inr)

lemma list_children_sorted_other:
  "list_children_sorted ul (File n) = Inl NotADirectoryError"
  "list_children_sorted ul (Unlistable n e) = (if e = PermissionError then Inr [] else Inl e)"
  "list_children_sorted ul (NoStat n e) = (if e = PermissionError then Inr [] else Inl e)"
  by (simp_all add: list_children_sorted_def)

subsection \<open>render_tree\<close>

text \<open>
  The children that \<^const>\<open>list_children_sorted\<close> returns are among the entries of the
  directory, so they are smaller than it: the recursion of \<^verbatim>\<open>walk\<close> ends.
\<close>

lemma size_list_insort_key:
  "size_list f (insort_key k x xs) = Suc (f x + size_list f xs)"
  by (induction xs) auto

lemma size_list_sort_key: "size_list f (sort_key k xs) = size_list f xs"
  by (induction xs) (auto simp: size_list_insort_key)

lemma size_list_filter_le: "size_list f (filter P xs) \<le> size_list f xs"
  by (induction xs) auto

lemma list_children_sorted_size:
  "list_children_sorted ul d = Inr cs \<Longrightarrow> size_list size cs \<le> size d"
  by (cases d)
     (auto simp: list_children_sorted_other list_children_sorted_Dir size_list_sort_key
           le_SucI size_list_filter_le
           split: if_splits)

text \<open>
  The closure \<^verbatim>\<open>walk\<close> appends to the list \<^verbatim>\<open>lines\<close> of the enclosing call: the buffer is
  passed in and returned. \<^verbatim>\<open>walk_loop\<close> is the \<^verbatim>\<open>for idx, child in enumerate(children)\<close>
  loop at the child of index \<^verbatim>\<open>idx\<close>. An exception leaves every frame: the result is
  \<^term>\<open>Inl e\<close> and the buffer is lost.
\<close>

function walk :: "(str \<Rightarrow> str) \<Rightarrow> node \<Rightarrow> str \<Rightarrow> str list \<Rightarrow> os_error + str list"
  and walk_loop ::
    "(str \<Rightarrow> str) \<Rightarrow> node list \<Rightarrow> nat \<Rightarrow> nat \<Rightarrow> str \<Rightarrow> str list \<Rightarrow> os_error + str list"
where
  "walk ul dir_path prefix lines =
     (case list_children_sorted ul dir_path of
        Inl e \<Rightarrow> Inl e
      | Inr children \<Rightarrow> walk_loop ul children 0 (length children) prefix lines)"
| "walk_loop ul [] idx count prefix lines = Inr lines"
| "walk_loop ul (child # rest) idx count prefix lines =
     (let is_last = (int idx = int count - 1);
          branch = (if is_last then corner else tee);
          next_prefix = prefix @ (if is_last then blank else pipe)
      in case is_dir child of
           Inl e \<Rightarrow> Inl e
         | Inr d \<Rightarrow>
             if d then
               (case walk ul child next_prefix
                       (lines @ [prefix @ branch @ name child @ lit ''/'']) of
                  Inl e \<Rightarrow> Inl e
                | Inr lines' \<Rightarrow> walk_loop ul rest (idx + 1) count prefix lines')
             else walk_loop ul rest (idx + 1) count prefix
                    (lines @ [prefix @ branch @ name child]))"
  by pat_completeness auto
termination
  by (relation "measure (\<lambda>x. case x of
          Inl (_, d, _, _) \<Rightarrow> 2 * size d + 2
        | Inr (_, cs, _, _, _, _) \<Rightarrow> 2 * size_list size cs + 1)")
     (auto dest: list_children_sorted_size)

text \<open>
  \<^verbatim>\<open>render_tree(root)\<close>. The argument \<open>root_str\<close> is \<^verbatim>\<open>str(root)\<close>, the text of the path,
  which names the root when \<^verbatim>\<open>root.name\<close> is empty; \<open>root\<close> is what the filesystem holds
  at that path.
\<close>

definition render_tree :: "(str \<Rightarrow> str) \<Rightarrow> str \<Rightarrow> node \<Rightarrow> os_error + str list" where
  "render_tree ul root_str root =
     (let lines = [];
          root_name = (if name root \<noteq> [] then name root else root_str);
          lines = lines @ [root_name @ lit ''/'']
      in walk ul root [] lines)"

subsection \<open>detect_repo_root\<close>

text \<open>
  A resolved absolute path is the list of its components below the filesystem root, so the
  root itself is \<^term>\<open>[]\<close>. The text of a path that is not resolved yet is a \<^typ>\<open>str\<close>.
\<close>

type_synonym path = "str list"

datatype kind = IsFile | IsDirectory

text \<open>
  What \<^verbatim>\<open>detect_repo_root\<close> asks of its host, each with the exception it may raise, of a
  type \<open>'e\<close> of exceptions, all of them instances of \<^verbatim>\<open>Exception\<close>:
  \<^item> \<^verbatim>\<open>subprocess.check_output\<close> of \<^verbatim>\<open>git rev-parse --show-toplevel\<close> run in a directory: the
    text it prints;
  \<^item> \<^verbatim>\<open>Path.resolve\<close>;
  \<^item> \<^verbatim>\<open>stat\<close> at a path, as \<^verbatim>\<open>Path.exists\<close> uses it: the kind of the entry, \<^term>\<open>None\<close> where
    there is none (\<^verbatim>\<open>stat\<close> fails with \<^verbatim>\<open>ENOENT\<close>, \<^verbatim>\<open>ENOTDIR\<close>, \<^verbatim>\<open>EBADF\<close> or \<^verbatim>\<open>ELOOP\<close>), or the
    exception \<^verbatim>\<open>Path.exists\<close> raises again (\<^verbatim>\<open>stat\<close> fails otherwise, as with \<^verbatim>\<open>EACCES\<close>).
\<close>

record 'e host =
  git_rev_parse :: "str \<Rightarrow> 'e + str"
  resolve :: "str \<Rightarrow> 'e + path"
  stat :: "path \<Rightarrow> 'e + kind option"

definition exists_path :: "'e host \<Rightarrow> path \<Rightarrow> 'e + bool" where
  "exists_path h p =
     (case stat h p of
        Inl e \<Rightarrow> Inl e
      | Inr None \<Rightarrow> Inr False
      | Inr (Some k) \<Rightarrow> Inr True)"

text \<open>\<^verbatim>\<open>Path.parents\<close>: the element of index \<open>idx\<close> drops the last \<open>idx + 1\<close> components.\<close>

definition parents :: "path \<Rightarrow> path list" where
  "parents p = map (\<lambda>idx. take (length p - idx - 1) p) [0..<length p]"

text \<open>
  The \<^verbatim>\<open>try\<close> block: it raises, returns a path, or falls through (\<^term>\<open>None\<close>).
\<close>

definition git_toplevel :: "'e host \<Rightarrow> str \<Rightarrow> 'e + path option" where
  "git_toplevel h start =
     (case git_rev_parse h start of
        Inl e \<Rightarrow> Inl e
      | Inr raw \<Rightarrow>
          (let out = strip raw in
           if out \<noteq> [] then
             (case resolve h out of Inl e \<Rightarrow> Inl e | Inr p \<Rightarrow> Inr (Some p))
           else Inr None))"

text \<open>The loop \<^verbatim>\<open>for p in [cur, *cur.parents]\<close>, which returns at the first match.\<close>

fun find_git :: "'e host \<Rightarrow> path list \<Rightarrow> 'e + path option" where
  "find_git h [] = Inr None"
| "find_git h (p # ps) =
     (case exists_path h (p @ [lit ''.git'']) of
        Inl e \<Rightarrow> Inl e
      | Inr found \<Rightarrow> if found then Inr (Some p) else find_git h ps)"

text \<open>
  \<^verbatim>\<open>detect_repo_root(start)\<close>. \<^verbatim>\<open>except Exception: pass\<close> catches whatever the \<^verbatim>\<open>try\<close> block
  raises; nothing catches what the statements after it raise.
\<close>

definition detect_repo_root :: "'e host \<Rightarrow> str \<Rightarrow> 'e + path" where
  "detect_repo_root h start =
     (case git_toplevel h start of
        Inr (Some p) \<Rightarrow> Inr p
      | _ \<Rightarrow>
          (case resolve h start of
             Inl e \<Rightarrow> Inl e
           | Inr cur \<Rightarrow>
               (case find_git h (cur # parents cur) of
                  Inl e \<Rightarrow> Inl e
                | Inr (Some p) \<Rightarrow> Inr p
                | Inr None \<Rightarrow> resolve h start)))"

section \<open>Notions the properties are stated with\<close>

subsection \<open>The entries behind the lines\<close>

text \<open>
  \<open>trace\<close> follows \<^const>\<open>walk\<close> step by step and records, for every line \<^const>\<open>walk\<close>
  appends, the position of the entry in the tree (the indices, from the root down, in the
  child lists of \<^const>\<open>list_children_sorted\<close>), the line, and the entry.
\<close>

type_synonym item = "nat list \<times> str \<times> node"

function trace :: "(str \<Rightarrow> str) \<Rightarrow> node \<Rightarrow> nat list \<Rightarrow> str \<Rightarrow> item list"
  and trace_loop ::
    "(str \<Rightarrow> str) \<Rightarrow> node list \<Rightarrow> nat \<Rightarrow> nat \<Rightarrow> nat list \<Rightarrow> str \<Rightarrow> item list"
where
  "trace ul dir_path pos prefix =
     (case list_children_sorted ul dir_path of
        Inl e \<Rightarrow> []
      | Inr children \<Rightarrow> trace_loop ul children 0 (length children) pos prefix)"
| "trace_loop ul [] idx count pos prefix = []"
| "trace_loop ul (child # rest) idx count pos prefix =
     (let is_last = (int idx = int count - 1);
          branch = (if is_last then corner else tee);
          next_prefix = prefix @ (if is_last then blank else pipe)
      in case is_dir child of
           Inl e \<Rightarrow> []
         | Inr d \<Rightarrow>
             if d then
               (pos @ [idx], prefix @ branch @ name child @ lit ''/'', child)
                 # trace ul child (pos @ [idx]) next_prefix
                 @ trace_loop ul rest (idx + 1) count pos prefix
             else (pos @ [idx], prefix @ branch @ name child, child)
                 # trace_loop ul rest (idx + 1) count pos prefix)"
  by pat_completeness auto
termination
  by (relation "measure (\<lambda>x. case x of
          Inl (_, d, _, _) \<Rightarrow> 2 * size d + 2
        | Inr (_, cs, _, _, _, _) \<Rightarrow> 2 * size_list size cs + 1)")
     (auto dest: list_children_sorted_size)

definition rendered :: "(str \<Rightarrow> str) \<Rightarrow> node \<Rightarrow> item list" where
  "rendered ul root = trace ul root [] []"

text \<open>The three components of an item.\<close>

definition item_pos :: "item \<Rightarrow> nat list" where
  "item_pos x = fst x"

definition item_line :: "item \<Rightarrow> str" where
  "item_line x = fst (snd x)"

definition item_node :: "item \<Rightarrow> node" where
  "item_node x = snd (snd x)"

text \<open>The entry at a position: from the root, the child of that index at each level.\<close>

fun node_at :: "(str \<Rightarrow> str) \<Rightarrow> node \<Rightarrow> nat list \<Rightarrow> node option" where
  "node_at ul d [] = Some d"
| "node_at ul d (i # is) =
     (case list_children_sorted ul d of
        Inl e \<Rightarrow> None
      | Inr cs \<Rightarrow> if i < length cs then node_at ul (cs ! i) is else None)"

subsection \<open>Trees that render\<close>

text \<open>
  \<open>statable d\<close>: \<^verbatim>\<open>is_dir\<close> returns on every entry of every directory that the walk from \<open>d\<close>
  would enumerate.
\<close>

fun statable :: "node \<Rightarrow> bool" where
  "statable (Dir n cs) =
     (\<forall>c \<in> set cs. \<not> isl (is_dir c) \<and> (visible c \<and> is_dir c = Inr True \<longrightarrow> statable c))"
| "statable (File n) = True"
| "statable (Unlistable n e) = True"
| "statable (NoStat n e) = True"

text \<open>
  \<open>listable d\<close>: \<open>d\<close> can be enumerated or its enumeration raises \<^verbatim>\<open>PermissionError\<close>, and the
  same holds of every directory that the walk from \<open>d\<close> enumerates; and \<^verbatim>\<open>is_dir\<close> returns on
  every entry of those directories.
\<close>

fun listable :: "node \<Rightarrow> bool" where
  "listable (File n) = False"
| "listable (Unlistable n e) = (e = PermissionError)"
| "listable (NoStat n e) = (e = PermissionError)"
| "listable (Dir n cs) =
     (\<forall>c \<in> set cs. \<not> isl (is_dir c) \<and> (visible c \<and> is_dir c = Inr True \<longrightarrow> listable c))"

text \<open>The number of entries below \<open>d\<close> that are not ignored, none counted below an ignored one.\<close>

fun descendants :: "node \<Rightarrow> nat" where
  "descendants (Dir n cs) =
     sum_list (map (\<lambda>c. if visible c then Suc (descendants c) else 0) cs)"
| "descendants (File n) = 0"
| "descendants (Unlistable n e) = 0"
| "descendants (NoStat n e) = 0"

text \<open>The tree without the ignored entries below its root, at every depth.\<close>

fun prune :: "node \<Rightarrow> node" where
  "prune (Dir n cs) = Dir n (map prune (filter (\<lambda>c. should_ignore c \<noteq> Inr True) cs))"
| "prune (File n) = File n"
| "prune (Unlistable n e) = Unlistable n e"
| "prune (NoStat n e) = NoStat n e"

subsection \<open>Root detection\<close>

text \<open>
  The version-control query failed: the \<^verbatim>\<open>try\<close> block raised (in the query or in resolving
  its output), or the output of the query is empty once stripped.
\<close>

definition git_failed :: "'e host \<Rightarrow> str \<Rightarrow> bool" where
  "git_failed h start = (case git_toplevel h start of Inr (Some p) \<Rightarrow> False | _ \<Rightarrow> True)"

text \<open>
  The ancestor of \<open>cur\<close> that is \<open>i\<close> levels up: \<open>cur\<close> itself for \<open>i = 0\<close>, the filesystem
  root for \<open>i = length cur\<close>.
\<close>

definition ancestor :: "path \<Rightarrow> nat \<Rightarrow> path" where
  "ancestor cur i = take (length cur - i) cur"

text \<open>
  The test as the specification words it: the directory \<open>p\<close> holds a directory named
  \<^verbatim>\<open>.git\<close>. The code's test is \<^const>\<open>exists_path\<close>.
\<close>

definition has_git_directory :: "'e host \<Rightarrow> path \<Rightarrow> bool" where
  "has_git_directory h p = (stat h (p @ [lit ''.git'']) = Inr (Some IsDirectory))"

text \<open>
  Exceptions for the examples, and a host for them: the directory \<^verbatim>\<open>/repo/sub\<close>, the given
  outcome of the version-control query, and the given outcome of \<^verbatim>\<open>stat\<close> at \<^verbatim>\<open>/repo/.git\<close>.
\<close>

datatype py_exception = ToolNotFound | CalledProcessError int | PermissionDenied

definition example_host ::
  "py_exception + str \<Rightarrow> py_exception + kind option \<Rightarrow> py_exception host" where
  "example_host git dot_git =
     \<lparr> git_rev_parse = (\<lambda>cwd. git),
       resolve = (\<lambda>s. if s = lit ''/repo/sub'' then Inr [lit ''repo'', lit ''sub'']
                     else if s = lit ''/repo'' then Inr [lit ''repo'']
                     else Inr []),
       stat = (\<lambda>p. if p = [lit ''repo'', lit ''.git''] then dot_git
                    else if p = [] \<or> p = [lit ''repo''] \<or> p = [lit ''repo'', lit ''sub'']
                    then Inr (Some IsDirectory)
                    else Inr None) \<rparr>"

section \<open>Properties\<close>

subsection \<open>The walk and its trace\<close>

lemma not_isl_is_dir: "\<not> isl (is_dir c) \<longleftrightarrow> (\<exists>b. is_dir c = Inr b)"
  by (cases "is_dir c") auto

lemma listed_stat:
  "list_children_sorted ul d = Inr cs \<Longrightarrow> c \<in> set cs \<Longrightarrow> \<exists>b. is_dir c = Inr b"
  by (cases d)
     (auto simp: list_children_sorted_other list_children_sorted_Dir split: if_splits)

lemma walk_trace:
  "walk ul d P lines = Inr out \<Longrightarrow> out = lines @ map (fst \<circ> snd) (trace ul d pos P)"
  "walk_loop ul cs i n P lines = Inr out \<Longrightarrow>
     out = lines @ map (fst \<circ> snd) (trace_loop ul cs i n pos P)"
proof (induction ul d P lines and ul cs i n P lines arbitrary: out pos and out pos
       rule: walk_walk_loop.induct)
  case (1 ul dir_path prefix lines)
  from 1(2) obtain cs where cs: "list_children_sorted ul dir_path = Inr cs"
    and w: "walk_loop ul cs 0 (length cs) prefix lines = Inr out"
    by (simp split: sum.splits)
  from 1(1)[OF cs w, of pos] cs show ?case by simp
next
  case (2 ul idx count prefix lines)
  then show ?case by simp
next
  case (3 ul child rest idx count prefix lines)
  let ?last = "int idx = int count - 1"
  let ?branch = "if ?last then corner else tee"
  let ?next = "prefix @ (if ?last then blank else pipe)"
  from 3(4) obtain d where d: "is_dir child = Inr d"
    by (cases "is_dir child") (simp_all add: Let_def)
  show ?case
  proof (cases d)
    case True
    let ?l = "prefix @ ?branch @ name child @ lit ''/''"
    from 3(4) d True obtain mid where m: "walk ul child ?next (lines @ [?l]) = Inr mid"
      and r: "walk_loop ul rest (idx + 1) count prefix mid = Inr out"
      by (simp add: Let_def split: sum.splits)
    have a: "mid = (lines @ [?l]) @ map (fst \<circ> snd) (trace ul child (pos @ [idx]) ?next)"
      by (rule 3(1)[OF refl refl refl d True m])
    have b: "out = mid @ map (fst \<circ> snd) (trace_loop ul rest (idx + 1) count pos prefix)"
      by (rule 3(2)[OF refl refl refl d True m r])
    show ?thesis unfolding b a using d True by (simp add: Let_def)
  next
    case False
    let ?l = "prefix @ ?branch @ name child"
    from 3(4) d False
    have r: "walk_loop ul rest (idx + 1) count prefix (lines @ [?l]) = Inr out"
      by (simp add: Let_def)
    have b: "out = (lines @ [?l])
                     @ map (fst \<circ> snd) (trace_loop ul rest (idx + 1) count pos prefix)"
      by (rule 3(3)[OF refl refl refl d False r])
    show ?thesis unfolding b using d False by (simp add: Let_def)
  qed
qed

lemma listable_iff:
  "listable d \<longleftrightarrow>
     (\<exists>cs. list_children_sorted ul d = Inr cs
           \<and> (\<forall>c \<in> set cs. is_dir c = Inr True \<longrightarrow> listable c))"
  by (cases d)
     (auto simp: list_children_sorted_other list_children_sorted_Dir not_isl_is_dir)

lemma walk_returns:
  "listable d \<Longrightarrow> \<exists>out. walk ul d P lines = Inr out"
  "(\<forall>c \<in> set cs. (\<exists>b. is_dir c = Inr b) \<and> (is_dir c = Inr True \<longrightarrow> listable c)) \<Longrightarrow>
     \<exists>out. walk_loop ul cs i n P lines = Inr out"
proof (induction ul d P lines and ul cs i n P lines rule: walk_walk_loop.induct)
  case (1 ul dir_path prefix lines)
  from 1(2) obtain cs where cs: "list_children_sorted ul dir_path = Inr cs"
    and all: "\<forall>c \<in> set cs. is_dir c = Inr True \<longrightarrow> listable c"
    unfolding listable_iff[of dir_path ul] by blast
  from all listed_stat[OF cs]
  have "\<forall>c \<in> set cs. (\<exists>b. is_dir c = Inr b) \<and> (is_dir c = Inr True \<longrightarrow> listable c)"
    by blast
  from 1(1)[OF cs this] cs show ?case by simp
next
  case (2 ul idx count prefix lines)
  then show ?case by simp
next
  case (3 ul child rest idx count prefix lines)
  let ?last = "int idx = int count - 1"
  let ?branch = "if ?last then corner else tee"
  let ?next = "prefix @ (if ?last then blank else pipe)"
  from 3(4) have rest:
    "\<forall>c \<in> set rest. (\<exists>b. is_dir c = Inr b) \<and> (is_dir c = Inr True \<longrightarrow> listable c)"
    by simp
  from 3(4) obtain d where d: "is_dir child = Inr d" by auto
  show ?case
  proof (cases d)
    case True
    let ?l = "prefix @ ?branch @ name child @ lit ''/''"
    from 3(4) d True have "listable child" by simp
    from 3(1)[OF refl refl refl d True this]
    obtain mid where m: "walk ul child ?next (lines @ [?l]) = Inr mid" by blast
    from 3(2)[OF refl refl refl d True m rest]
    obtain out where "walk_loop ul rest (idx + 1) count prefix mid = Inr out" by blast
    with m d True show ?thesis by (simp add: Let_def)
  next
    case False
    let ?l = "prefix @ ?branch @ name child"
    from 3(3)[OF refl refl refl d False rest]
    obtain out where "walk_loop ul rest (idx + 1) count prefix (lines @ [?l]) = Inr out"
      by blast
    with d False show ?thesis by (simp add: Let_def)
  qed
qed

lemma walk_listable:
  "walk ul d P lines = Inr out \<Longrightarrow> listable d"
  "walk_loop ul cs i n P lines = Inr out \<Longrightarrow> \<forall>c \<in> set cs. is_dir c = Inr True \<longrightarrow> listable c"
proof (induction ul d P lines and ul cs i n P lines arbitrary: out and out
       rule: walk_walk_loop.induct)
  case (1 ul dir_path prefix lines)
  from 1(2) obtain cs where cs: "list_children_sorted ul dir_path = Inr cs"
    and w: "walk_loop ul cs 0 (length cs) prefix lines = Inr out"
    by (simp split: sum.splits)
  from 1(1)[OF cs w] cs show ?case unfolding listable_iff[of dir_path ul] by blast
next
  case (2 ul idx count prefix lines)
  then show ?case by simp
next
  case (3 ul child rest idx count prefix lines)
  let ?last = "int idx = int count - 1"
  let ?branch = "if ?last then corner else tee"
  let ?next = "prefix @ (if ?last then blank else pipe)"
  from 3(4) obtain d where d: "is_dir child = Inr d"
    by (cases "is_dir child") (simp_all add: Let_def)
  show ?case
  proof (cases d)
    case True
    let ?l = "prefix @ ?branch @ name child @ lit ''/''"
    from 3(4) d True obtain mid where m: "walk ul child ?next (lines @ [?l]) = Inr mid"
      and r: "walk_loop ul rest (idx + 1) count prefix mid = Inr out"
      by (simp add: Let_def split: sum.splits)
    have a: "listable child" by (rule 3(1)[OF refl refl refl d True m])
    have b: "\<forall>c \<in> set rest. is_dir c = Inr True \<longrightarrow> listable c"
      by (rule 3(2)[OF refl refl refl d True m r])
    from a b show ?thesis by simp
  next
    case False
    let ?l = "prefix @ ?branch @ name child"
    from 3(4) d False
    have r: "walk_loop ul rest (idx + 1) count prefix (lines @ [?l]) = Inr out"
      by (simp add: Let_def)
    have b: "\<forall>c \<in> set rest. is_dir c = Inr True \<longrightarrow> listable c"
      by (rule 3(3)[OF refl refl refl d False r])
    from b d False show ?thesis by simp
  qed
qed

subsection \<open>The scenario of one file and one directory\<close>

lemmas eval_defs =
  list_children_sorted_def should_ignore_def sort_children_def sort_key_of_def
  DEFAULT_IGNORE_DIRS_def DEFAULT_IGNORE_FILES_def INCLUDE_HIDDEN_def

lemma list_children_sorted_scenario:
  "list_children_sorted ul
       (Dir rn [File (lit ''a.txt''), Dir (lit ''sub'') [File (lit ''b.txt'')]]) =
     Inr [Dir (lit ''sub'') [File (lit ''b.txt'')], File (lit ''a.txt'')]"
  "list_children_sorted ul
       (Dir rn [Dir (lit ''sub'') [File (lit ''b.txt'')], File (lit ''a.txt'')]) =
     Inr [Dir (lit ''sub'') [File (lit ''b.txt'')], File (lit ''a.txt'')]"
  "list_children_sorted ul (Dir (lit ''sub'') [File (lit ''b.txt'')]) = Inr [File (lit ''b.txt'')]"
  by (simp_all add: eval_defs)

text \<open>
  C6. A root that holds exactly the file \<^verbatim>\<open>a.txt\<close> and the directory \<^verbatim>\<open>sub\<close>, which holds
  exactly the file \<^verbatim>\<open>b.txt\<close>, renders as four lines, in this order: the root's name and
  \<^verbatim>\<open>/\<close>; the tee glyph and \<^verbatim>\<open>sub/\<close>; the vertical-bar unit, the corner glyph and \<^verbatim>\<open>b.txt\<close>;
  the corner glyph and \<^verbatim>\<open>a.txt\<close>. This holds in whichever order the operating system
  enumerates the two entries of the root.
\<close>

theorem render_tree_scenario:
  "render_tree ul rs (Dir rn [File (lit ''a.txt''), Dir (lit ''sub'') [File (lit ''b.txt'')]]) =
     Inr [(if rn \<noteq> [] then rn else rs) @ lit ''/'',
          tee @ lit ''sub/'',
          pipe @ corner @ lit ''b.txt'',
          corner @ lit ''a.txt'']
   \<and> render_tree ul rs (Dir rn [Dir (lit ''sub'') [File (lit ''b.txt'')], File (lit ''a.txt'')]) =
     Inr [(if rn \<noteq> [] then rn else rs) @ lit ''/'',
          tee @ lit ''sub/'',
          pipe @ corner @ lit ''b.txt'',
          corner @ lit ''a.txt'']"
  by (simp add: render_tree_def list_children_sorted_scenario)

subsection \<open>The number of lines\<close>

lemma sum_list_map_insort_key:
  "sum_list (map f (insort_key k x xs)) = f x + sum_list (map f xs)"
  for f :: "'a \<Rightarrow> nat"
  by (induction xs) auto

lemma sum_list_map_sort_key:
  "sum_list (map f (sort_key k xs)) = sum_list (map f xs)"
  for f :: "'a \<Rightarrow> nat"
  by (induction xs) (auto simp: sum_list_map_insort_key)

lemma descendants_children:
  "list_children_sorted ul d = Inr cs \<Longrightarrow>
     sum_list (map (\<lambda>c. Suc (descendants c)) cs) = descendants d"
proof (cases d)
  case (Dir n cs0)
  assume "list_children_sorted ul d = Inr cs"
  with Dir have cs: "cs = sort_key (key ul) (filter visible cs0)"
    by (simp add: list_children_sorted_Dir)
  have "sum_list (map (\<lambda>c. Suc (descendants c)) (filter visible cs0))
        = sum_list (map (\<lambda>c. if visible c then Suc (descendants c) else 0) cs0)"
    by (induction cs0) auto
  with cs Dir show ?thesis by (simp add: sum_list_map_sort_key)
qed (auto simp: list_children_sorted_other split: if_splits)

lemma list_children_sorted_Inl_cases:
  "list_children_sorted ul d = Inl e \<Longrightarrow>
     (\<exists>n. d = File n) \<or> (\<exists>n. d = Unlistable n e) \<or> (\<exists>n. d = NoStat n e)
     \<or> (\<exists>n cs. d = Dir n cs \<and> (\<exists>c \<in> set cs. is_dir c = Inl e))"
  by (cases d)
     (auto simp: list_children_sorted_other dest: list_children_sorted_Dir_Inl split: if_splits)

lemma descendants_file: "is_dir c = Inr False \<Longrightarrow> descendants c = 0"
  by (cases c) auto

lemma length_trace:
  "listable d \<Longrightarrow> length (trace ul d pos P) = descendants d"
  "(\<forall>c \<in> set cs. (\<exists>b. is_dir c = Inr b) \<and> (is_dir c = Inr True \<longrightarrow> listable c)) \<Longrightarrow>
     length (trace_loop ul cs i n pos P) = sum_list (map (\<lambda>c. Suc (descendants c)) cs)"
proof (induction ul d pos P and ul cs i n pos P rule: trace_trace_loop.induct)
  case (1 ul dir_path pos prefix)
  from 1(2) obtain cs where cs: "list_children_sorted ul dir_path = Inr cs"
    and all: "\<forall>c \<in> set cs. is_dir c = Inr True \<longrightarrow> listable c"
    unfolding listable_iff[of dir_path ul] by blast
  from all listed_stat[OF cs]
  have "\<forall>c \<in> set cs. (\<exists>b. is_dir c = Inr b) \<and> (is_dir c = Inr True \<longrightarrow> listable c)"
    by blast
  from 1(1)[OF cs this] cs show ?case by (simp add: descendants_children)
next
  case (2 ul idx count pos prefix)
  show ?case by simp
next
  case (3 ul child rest idx count pos prefix)
  from 3(4) have rest:
    "\<forall>c \<in> set rest. (\<exists>b. is_dir c = Inr b) \<and> (is_dir c = Inr True \<longrightarrow> listable c)"
    by simp
  from 3(4) obtain d where d: "is_dir child = Inr d" by auto
  show ?case
  proof (cases d)
    case True
    with 3(4) d have "listable child" by simp
    from 3(1)[OF refl refl refl d True this] 3(2)[OF refl refl refl d True rest] d True
    show ?thesis by (simp add: Let_def del: trace.simps)
  next
    case False
    from 3(3)[OF refl refl refl d False rest] d False
    show ?thesis by (simp add: Let_def descendants_file)
  qed
qed

lemma render_tree_trace:
  "render_tree ul rs root = Inr lines \<Longrightarrow>
     lines = ((if name root \<noteq> [] then name root else rs) @ lit ''/'')
               # map item_line (rendered ul root)"
  unfolding render_tree_def rendered_def Let_def
  by (drule walk_trace(1)[where pos = "[]"]) (simp add: item_line_def comp_def)

lemma render_tree_listable: "render_tree ul rs root = Inr lines \<Longrightarrow> listable root"
  unfolding render_tree_def Let_def by (rule walk_listable(1))

lemma render_tree_returns:
  assumes "listable root"
  shows "render_tree ul rs root =
           Inr (((if name root \<noteq> [] then name root else rs) @ lit ''/'')
                  # map item_line (rendered ul root))"
proof -
  from walk_returns(1)[OF assms]
  obtain lines where l: "render_tree ul rs root = Inr lines"
    unfolding render_tree_def Let_def by blast
  from render_tree_trace[OF l] l show ?thesis by simp
qed

text \<open>
  C1. For a directory tree that renders (the root is a directory, no enumeration of the
  walk raises anything but a permission error, and \<^verbatim>\<open>is_dir\<close> raises on no entry the walk
  meets), \<^verbatim>\<open>render_tree\<close> returns, and the number of lines it returns is 1, for the root line,
  plus the number of descendant entries of the root that are not ignored, counted
  recursively.
\<close>

theorem render_tree_line_count:
  assumes "listable root"
  shows "\<exists>lines. render_tree ul rs root = Inr lines \<and> length lines = 1 + descendants root"
  using render_tree_returns[OF assms, of ul rs] length_trace(1)[OF assms, of ul "[]" "[]"]
  by (simp add: rendered_def del: trace.simps)

theorem render_tree_line_count_witness:
  "listable (Dir (lit ''r'') [File (lit ''a.txt''), Dir (lit ''node_modules'') [File (lit ''x.js'')],
                         Dir (lit ''sub'') [File (lit ''b.txt''), File (lit ''.DS_Store'')]])
   \<and> (\<exists>lines. render_tree (\<lambda>s. s) (lit ''/r'')
                 (Dir (lit ''r'') [File (lit ''a.txt''),
                         Dir (lit ''node_modules'') [File (lit ''x.js'')],
                         Dir (lit ''sub'') [File (lit ''b.txt''), File (lit ''.DS_Store'')]])
                = Inr lines
        \<and> length lines = 4)"
proof -
  let ?t = "Dir (lit ''r'') [File (lit ''a.txt''),
                         Dir (lit ''node_modules'') [File (lit ''x.js'')],
                         Dir (lit ''sub'') [File (lit ''b.txt''), File (lit ''.DS_Store'')]]"
  have h: "listable ?t"
    by (simp add: visible_def should_ignore_def DEFAULT_IGNORE_DIRS_def
          DEFAULT_IGNORE_FILES_def INCLUDE_HIDDEN_def)
  have d: "descendants ?t = 3"
    by (simp add: visible_def should_ignore_def DEFAULT_IGNORE_DIRS_def
          DEFAULT_IGNORE_FILES_def INCLUDE_HIDDEN_def)
  from render_tree_line_count[OF h, of "\<lambda>s. s" "lit ''/r''"] h d show ?thesis by simp
qed

subsection \<open>Exceptions of the enumeration\<close>

lemma list_children_sorted_visible:
  "list_children_sorted ul (Dir n cs0) = Inr cs \<Longrightarrow> c \<in> set cs \<Longrightarrow> c \<in> set cs0 \<and> visible c"
  by (auto simp: list_children_sorted_Dir)

lemma statable_children:
  assumes "statable d" "list_children_sorted ul d = Inr cs"
  shows "\<forall>c \<in> set cs. (\<exists>b. is_dir c = Inr b) \<and> (is_dir c = Inr True \<longrightarrow> statable c)"
proof (cases d)
  case (Dir n cs0)
  show ?thesis
  proof
    fix c assume "c \<in> set cs"
    with assms(2) Dir have "c \<in> set cs0" "visible c"
      by (auto dest: list_children_sorted_visible)
    with assms(1) Dir show "(\<exists>b. is_dir c = Inr b) \<and> (is_dir c = Inr True \<longrightarrow> statable c)"
      by (auto simp: not_isl_is_dir)
  qed
qed (use assms in \<open>auto simp: list_children_sorted_other split: if_splits\<close>)

lemma list_children_sorted_error:
  assumes "statable d" "list_children_sorted ul d = Inl e"
  shows "e \<noteq> PermissionError"
proof (cases d)
  case (Dir n cs0)
  with assms(2) obtain c where "c \<in> set cs0" "is_dir c = Inl e"
    by (auto dest: list_children_sorted_Dir_Inl)
  with assms(1) Dir show ?thesis by auto
qed (use assms in \<open>auto simp: list_children_sorted_other split: if_splits\<close>)

lemma walk_error:
  "statable d \<Longrightarrow> walk ul d P lines = Inl e \<Longrightarrow> e \<noteq> PermissionError"
  "(\<forall>c \<in> set cs. (\<exists>b. is_dir c = Inr b) \<and> (is_dir c = Inr True \<longrightarrow> statable c)) \<Longrightarrow>
     walk_loop ul cs i n P lines = Inl e \<Longrightarrow> e \<noteq> PermissionError"
proof (induction ul d P lines and ul cs i n P lines rule: walk_walk_loop.induct)
  case (1 ul dir_path prefix lines)
  show ?case
  proof (cases "list_children_sorted ul dir_path")
    case (Inl e')
    with 1(3) have "e' = e" by simp
    with Inl list_children_sorted_error[OF 1(2)] show ?thesis by simp
  next
    case (Inr cs)
    with 1(3) have w: "walk_loop ul cs 0 (length cs) prefix lines = Inl e" by simp
    from 1(1)[OF Inr statable_children[OF 1(2) Inr] w] show ?thesis .
  qed
next
  case (2 ul idx count prefix lines)
  then show ?case by simp
next
  case (3 ul child rest idx count prefix lines)
  let ?last = "int idx = int count - 1"
  let ?branch = "if ?last then corner else tee"
  let ?next = "prefix @ (if ?last then blank else pipe)"
  from 3(4) have rest:
    "\<forall>c \<in> set rest. (\<exists>b. is_dir c = Inr b) \<and> (is_dir c = Inr True \<longrightarrow> statable c)"
    by simp
  from 3(4) obtain d where d: "is_dir child = Inr d" by auto
  show ?case
  proof (cases d)
    case True
    let ?l = "prefix @ ?branch @ name child @ lit ''/''"
    from 3(4) d True have s: "statable child" by simp
    show ?thesis
    proof (cases "walk ul child ?next (lines @ [?l])")
      case (Inl e')
      with 3(5) d True have "e' = e" by (simp add: Let_def)
      with Inl 3(1)[OF refl refl refl d True s] show ?thesis by simp
    next
      case (Inr mid)
      with 3(5) d True have "walk_loop ul rest (idx + 1) count prefix mid = Inl e"
        by (simp add: Let_def)
      from 3(2)[OF refl refl refl d True Inr rest this] show ?thesis .
    qed
  next
    case False
    let ?l = "prefix @ ?branch @ name child"
    from 3(5) d False have "walk_loop ul rest (idx + 1) count prefix (lines @ [?l]) = Inl e"
      by (simp add: Let_def)
    from 3(3)[OF refl refl refl d False rest this] show ?thesis .
  qed
qed

text \<open>
  Where \<^verbatim>\<open>is_dir\<close> raises: a directory that may be read and not searched yields its entries,
  and \<^verbatim>\<open>stat\<close> fails on each of them with \<^verbatim>\<open>EACCES\<close>. No enumeration raises, and the
  \<^verbatim>\<open>PermissionError\<close> of \<^verbatim>\<open>is_dir\<close>, called in \<^verbatim>\<open>should_ignore\<close> outside the \<^verbatim>\<open>try\<close>, leaves
  \<^verbatim>\<open>render_tree\<close>.
\<close>

lemma render_tree_is_dir_raises:
  "render_tree ul (lit ''/r'')
       (Dir (lit ''r'') [Dir (lit ''noexec'') [NoStat (lit ''x'') PermissionError]])
     = Inl PermissionError"
  by (simp add: render_tree_def eval_defs Let_def)

text \<open>
  C3, as stated: whatever exception an enumeration raises, \<^verbatim>\<open>render_tree\<close> does not raise.
  It fails where a subdirectory raises an \<^verbatim>\<open>OSError\<close> that is not a \<^verbatim>\<open>PermissionError\<close>:
  \<^verbatim>\<open>list_children_sorted\<close> catches \<^verbatim>\<open>PermissionError\<close> only, so the exception leaves
  \<^verbatim>\<open>render_tree\<close> and no line is returned.
\<close>

theorem render_tree_raises_counterexample:
  "render_tree (\<lambda>s. s) (lit ''/r'')
       (Dir (lit ''r'') [File (lit ''a.txt''), Unlistable (lit ''vault'') OtherOSError])
     = Inl OtherOSError"
  by (simp add: render_tree_def eval_defs Let_def)

text \<open>
  C3, amended. Take a tree in which \<^verbatim>\<open>is_dir\<close> returns on every entry of every directory
  the walk enumerates. When the root is a directory and every enumeration of the walk either
  succeeds or raises a permission error, \<^verbatim>\<open>render_tree\<close> returns the whole line sequence: the
  root line, then the line of every entry the walk meets, one for each entry that is not
  ignored. When some enumeration raises another exception, \<^verbatim>\<open>render_tree\<close> raises, returns
  no line, and the exception is not a permission error. Nothing is said of a tree in which
  \<^verbatim>\<open>is_dir\<close> raises.
\<close>

theorem render_tree_returns_iff:
  "(listable root \<longrightarrow>
      render_tree ul rs root =
        Inr (((if name root \<noteq> [] then name root else rs) @ lit ''/'')
               # map item_line (rendered ul root))
      \<and> length (rendered ul root) = descendants root)
   \<and> (statable root \<and> \<not> listable root \<longrightarrow>
        (\<exists>e. render_tree ul rs root = Inl e \<and> e \<noteq> PermissionError))"
proof (intro conjI impI)
  assume l: "listable root"
  then show "render_tree ul rs root =
        Inr (((if name root \<noteq> [] then name root else rs) @ lit ''/'')
               # map item_line (rendered ul root))"
    by (rule render_tree_returns)
  from length_trace(1)[OF l, of ul "[]" "[]"]
  show "length (rendered ul root) = descendants root"
    by (simp add: rendered_def del: trace.simps)
next
  assume n: "statable root \<and> \<not> listable root"
  show "\<exists>e. render_tree ul rs root = Inl e \<and> e \<noteq> PermissionError"
  proof (cases "render_tree ul rs root")
    case (Inl e)
    with n have "e \<noteq> PermissionError"
      unfolding render_tree_def Let_def by (auto dest: walk_error(1))
    with Inl show ?thesis by blast
  next
    case (Inr lines)
    then have "listable root" by (rule render_tree_listable)
    with n show ?thesis by simp
  qed
qed

theorem render_tree_returns_iff_witness:
  "listable (Dir (lit ''r'') [Unlistable (lit ''locked'') PermissionError, File (lit ''a.txt'')])
   \<and> render_tree (\<lambda>s. s) (lit ''/r'')
        (Dir (lit ''r'') [Unlistable (lit ''locked'') PermissionError, File (lit ''a.txt'')])
      = Inr [lit ''r/'', tee @ lit ''locked/'', corner @ lit ''a.txt'']
   \<and> statable (Dir (lit ''r'') [Unlistable (lit ''vault'') OtherOSError])
   \<and> \<not> listable (Dir (lit ''r'') [Unlistable (lit ''vault'') OtherOSError])
   \<and> (\<exists>e. render_tree (\<lambda>s. s) (lit ''/r'')
              (Dir (lit ''r'') [Unlistable (lit ''vault'') OtherOSError]) = Inl e
          \<and> e \<noteq> PermissionError)"
proof -
  let ?t = "Dir (lit ''r'') [Unlistable (lit ''locked'') PermissionError, File (lit ''a.txt'')]"
  let ?u = "Dir (lit ''r'') [Unlistable (lit ''vault'') OtherOSError]"
  have a: "listable ?t"
    by (simp add: visible_def should_ignore_def DEFAULT_IGNORE_DIRS_def
          DEFAULT_IGNORE_FILES_def INCLUDE_HIDDEN_def)
  have b: "\<not> listable ?u"
    by (simp add: visible_def should_ignore_def DEFAULT_IGNORE_DIRS_def INCLUDE_HIDDEN_def)
  have c: "statable ?u"
    by (simp add: visible_def should_ignore_def DEFAULT_IGNORE_DIRS_def INCLUDE_HIDDEN_def)
  have r: "map item_line (rendered (\<lambda>s. s) ?t) = [tee @ lit ''locked/'', corner @ lit ''a.txt'']"
    by (simp add: rendered_def item_line_def eval_defs)
  from a b c r
    render_tree_returns_iff[of ?t "\<lambda>s. s" "lit ''/r''"]
    render_tree_returns_iff[of ?u "\<lambda>s. s" "lit ''/r''"]
  show ?thesis by simp
qed

subsection \<open>Preorder and the order of siblings\<close>

text \<open>
  Positions are compared lexicographically, a position being smaller than each of its
  extensions: this is the order in which a preorder traversal meets them.
\<close>

lemma append_less_append: "p @ a < p @ b \<longleftrightarrow> a < b" for p :: "nat list"
  by (induction p) auto

lemma less_append_nonempty: "q \<noteq> [] \<Longrightarrow> p < p @ q" for p :: "nat list"
  by (induction p) (auto simp: neq_Nil_conv)

lemma trace_loop_Cons:
  "x \<in> set (trace_loop ul (child # rest) idx count pos prefix) \<Longrightarrow>
     \<exists>d. is_dir child = Inr d
       \<and> (x = (pos @ [idx],
               prefix @ (if int idx = int count - 1 then corner else tee) @ name child
                 @ (if d then lit ''/'' else []),
               child)
          \<or> d \<and> x \<in> set (trace ul child (pos @ [idx])
                            (prefix @ (if int idx = int count - 1 then blank else pipe)))
          \<or> x \<in> set (trace_loop ul rest (idx + 1) count pos prefix))"
  by (cases "is_dir child") (auto simp: Let_def simp del: trace.simps split: if_splits)

lemma trace_node_at:
  "x \<in> set (trace ul d pos P) \<Longrightarrow>
     \<exists>q. q \<noteq> [] \<and> fst x = pos @ q \<and> node_at ul d q = Some (snd (snd x))"
  "x \<in> set (trace_loop ul cs i n pos P) \<Longrightarrow>
     \<exists>k q. k < length cs \<and> fst x = pos @ (i + k) # q
         \<and> node_at ul (cs ! k) q = Some (snd (snd x))"
proof (induction ul d pos P and ul cs i n pos P arbitrary: x and x
       rule: trace_trace_loop.induct)
  case (1 ul dir_path pos prefix)
  from 1(2) obtain cs where cs: "list_children_sorted ul dir_path = Inr cs"
    and x: "x \<in> set (trace_loop ul cs 0 (length cs) pos prefix)"
    by (cases "list_children_sorted ul dir_path") auto
  from 1(1)[OF cs x] obtain k q where "k < length cs" "fst x = pos @ k # q"
    "node_at ul (cs ! k) q = Some (snd (snd x))" by auto
  with cs have "k # q \<noteq> [] \<and> fst x = pos @ (k # q)
      \<and> node_at ul dir_path (k # q) = Some (snd (snd x))"
    by simp
  then show ?case by blast
next
  case (2 ul idx count pos prefix)
  then show ?case by simp
next
  case (3 ul child rest idx count pos prefix)
  let ?last = "int idx = int count - 1"
  let ?branch = "if ?last then corner else tee"
  let ?next = "prefix @ (if ?last then blank else pipe)"
  from trace_loop_Cons[OF 3(4)] obtain d where d: "is_dir child = Inr d"
    and "x = (pos @ [idx], prefix @ ?branch @ name child @ (if d then lit ''/'' else []), child)
         \<or> d \<and> x \<in> set (trace ul child (pos @ [idx]) ?next)
         \<or> x \<in> set (trace_loop ul rest (idx + 1) count pos prefix)"
    by blast
  then consider
      (head) "x = (pos @ [idx], prefix @ ?branch @ name child @ (if d then lit ''/'' else []),
                   child)"
    | (sub) "d" "x \<in> set (trace ul child (pos @ [idx]) ?next)"
    | (rest) "x \<in> set (trace_loop ul rest (idx + 1) count pos prefix)"
    by blast
  then show ?case
  proof cases
    case head
    then have "0 < length (child # rest) \<and> fst x = pos @ (idx + 0) # []
        \<and> node_at ul ((child # rest) ! 0) [] = Some (snd (snd x))" by simp
    then show ?thesis by blast
  next
    case sub
    from 3(1)[OF refl refl refl d sub] obtain q where
      "fst x = (pos @ [idx]) @ q" "node_at ul child q = Some (snd (snd x))" by blast
    then have "0 < length (child # rest) \<and> fst x = pos @ (idx + 0) # q
        \<and> node_at ul ((child # rest) ! 0) q = Some (snd (snd x))" by simp
    then show ?thesis by blast
  next
    case rest
    have "\<exists>k q. k < length rest \<and> fst x = pos @ (idx + 1 + k) # q
            \<and> node_at ul (rest ! k) q = Some (snd (snd x))"
    proof (cases d)
      case True
      from 3(2)[OF refl refl refl d True rest] show ?thesis .
    next
      case False
      from 3(3)[OF refl refl refl d False rest] show ?thesis .
    qed
    then obtain k q where "k < length rest" "fst x = pos @ (idx + 1 + k) # q"
      "node_at ul (rest ! k) q = Some (snd (snd x))" by blast
    then have "Suc k < length (child # rest) \<and> fst x = pos @ (idx + Suc k) # q
        \<and> node_at ul ((child # rest) ! Suc k) q = Some (snd (snd x))" by simp
    then show ?thesis by blast
  qed
qed

lemma trace_sorted:
  "sorted_wrt (<) (map fst (trace ul d pos P))"
  "sorted_wrt (<) (map fst (trace_loop ul cs i n pos P))"
proof (induction ul d pos P and ul cs i n pos P rule: trace_trace_loop.induct)
  case (1 ul dir_path pos prefix)
  then show ?case by (cases "list_children_sorted ul dir_path") auto
next
  case (2 ul idx count pos prefix)
  show ?case by simp
next
  case (3 ul child rest idx count pos prefix)
  let ?last = "int idx = int count - 1"
  let ?next = "prefix @ (if ?last then blank else pipe)"
  let ?rest = "trace_loop ul rest (idx + 1) count pos prefix"
  have after: "pos @ idx # q < fst y" if "y \<in> set ?rest" for y q
  proof -
    from trace_node_at(2)[OF that] obtain k r where "fst y = pos @ (idx + 1 + k) # r" by blast
    then show ?thesis by (simp add: append_less_append)
  qed
  show ?case
  proof (cases "is_dir child")
    case (Inl e)
    then show ?thesis by (simp add: Let_def)
  next
    case d: (Inr d)
    show ?thesis
    proof (cases d)
      case True
      let ?sub = "trace ul child (pos @ [idx]) ?next"
      have rest_sorted: "sorted_wrt (<) (map fst ?rest)"
        by (rule 3(2)[OF refl refl refl d True])
      have sub: "\<exists>q. q \<noteq> [] \<and> fst y = pos @ idx # q" if "y \<in> set ?sub" for y
        using trace_node_at(1)[OF that] by auto
      have 1: "pos @ [idx] < fst y" if "y \<in> set ?sub" for y
        using sub[OF that] by (auto simp: append_less_append neq_Nil_conv)
      have 2: "fst y < fst z" if "y \<in> set ?sub" "z \<in> set ?rest" for y z
        using sub[OF that(1)] after[OF that(2)] by auto
      have eq: "map fst (trace_loop ul (child # rest) idx count pos prefix)
                  = (pos @ [idx]) # map fst ?sub @ map fst ?rest"
        using d True by (simp add: Let_def del: trace.simps)
      from 3(1)[OF refl refl refl d True] rest_sorted 1 2 after[of _ "[]"]
      show ?thesis unfolding eq by (auto simp: sorted_wrt_append simp del: trace.simps)
    next
      case False
      have rest_sorted: "sorted_wrt (<) (map fst ?rest)"
        by (rule 3(3)[OF refl refl refl d False])
      from d False have eq: "map fst (trace_loop ul (child # rest) idx count pos prefix)
                  = (pos @ [idx]) # map fst ?rest"
        by (simp add: Let_def)
      from rest_sorted after[of _ "[]"] show ?thesis unfolding eq by auto
    qed
  qed
qed

lemma list_children_sorted_sorted:
  "list_children_sorted ul d = Inr cs \<Longrightarrow> sorted (map (key ul) cs)"
  by (cases d)
     (auto simp: list_children_sorted_other list_children_sorted_Dir split: if_splits)

lemma node_at_snoc:
  "node_at ul root (p @ [a]) = Some c \<Longrightarrow>
     \<exists>d cs. node_at ul root p = Some d \<and> list_children_sorted ul d = Inr cs
        \<and> a < length cs \<and> c = cs ! a"
proof (induction p arbitrary: root)
  case Nil
  then show ?case by (auto split: sum.splits if_splits)
next
  case (Cons i p)
  from Cons.prems obtain cs where cs: "list_children_sorted ul root = Inr cs" "i < length cs"
    and n: "node_at ul (cs ! i) (p @ [a]) = Some c"
    by (auto split: sum.splits if_splits)
  from Cons.IH[OF n] cs show ?case by simp
qed

lemma node_at_append:
  "node_at ul root (p @ q) =
     (case node_at ul root p of None \<Rightarrow> None | Some d \<Rightarrow> node_at ul d q)"
  by (induction p arbitrary: root) (auto split: sum.splits)

lemma rendered_node_at:
  assumes "i < length (rendered ul root)"
  shows "node_at ul root (item_pos (rendered ul root ! i))
           = Some (item_node (rendered ul root ! i))"
proof -
  from assms have "rendered ul root ! i \<in> set (trace ul root [] [])"
    by (simp add: rendered_def del: trace.simps)
  from trace_node_at(1)[OF this] show ?thesis
    by (auto simp: item_pos_def item_node_def rendered_def simp del: trace.simps)
qed

lemma rendered_increasing:
  assumes "i < j" "j < length (rendered ul root)"
  shows "item_pos (rendered ul root ! i) < item_pos (rendered ul root ! j)"
proof -
  have "sorted_wrt (<) (map fst (rendered ul root))"
    unfolding rendered_def by (rule trace_sorted(1))
  with assms show ?thesis
    by (simp add: sorted_wrt_iff_nth_less item_pos_def)
qed

lemma rendered_ancestor_first:
  assumes i: "i < length (rendered ul root)" and j: "j < length (rendered ul root)"
    and q: "q \<noteq> []" "item_pos (rendered ul root ! j) = item_pos (rendered ul root ! i) @ q"
  shows "i < j"
proof (rule ccontr)
  assume "\<not> i < j"
  then consider "j = i" | "j < i" by linarith
  then show False
  proof cases
    case 1
    with q show False by simp
  next
    case 2
    from rendered_increasing[OF 2 i] q
      less_append_nonempty[OF q(1), of "item_pos (rendered ul root ! i)"]
    show False by simp
  qed
qed

lemma rendered_siblings:
  assumes ij: "i < j" "j < length (rendered ul root)"
    and pi: "item_pos (rendered ul root ! i) = p @ [a]"
    and pj: "item_pos (rendered ul root ! j) = p @ [b]"
  shows "key ul (item_node (rendered ul root ! i)) \<le> key ul (item_node (rendered ul root ! j))"
proof -
  from rendered_increasing[OF ij] pi pj have ab: "a < b"
    by (simp add: append_less_append)
  from ij have i: "i < length (rendered ul root)" by simp
  from rendered_node_at[OF i] pi
  obtain d cs where d: "node_at ul root p = Some d" "list_children_sorted ul d = Inr cs"
    and a: "a < length cs" "item_node (rendered ul root ! i) = cs ! a"
    by (auto dest: node_at_snoc)
  from rendered_node_at[OF ij(2)] pj d
  have b: "b < length cs" "item_node (rendered ul root ! j) = cs ! b"
    by (auto dest: node_at_snoc)
  from list_children_sorted_sorted[OF d(2)] ab b(1)
  have "key ul (cs ! a) \<le> key ul (cs ! b)"
    by (simp add: sorted_iff_nth_mono_less)
  with a b show ?thesis by simp
qed

lemma rendered_stat:
  assumes "x \<in> set (rendered ul root)"
  shows "\<exists>b. is_dir (item_node x) = Inr b"
proof -
  from assms obtain i where i: "i < length (rendered ul root)" "x = rendered ul root ! i"
    by (auto simp: in_set_conv_nth)
  from rendered_node_at[OF i(1)] i(2)
  have n: "node_at ul root (item_pos x) = Some (item_node x)" by simp
  from assms have "x \<in> set (trace ul root [] [])" by (simp add: rendered_def del: trace.simps)
  from trace_node_at(1)[OF this] obtain q where q: "q \<noteq> []" "item_pos x = q"
    by (auto simp: item_pos_def)
  then obtain p a where "item_pos x = p @ [a]" by (cases q rule: rev_cases) auto
  with n obtain d cs where cs: "list_children_sorted ul d = Inr cs" and a: "a < length cs"
    "item_node x = cs ! a"
    by (auto dest: node_at_snoc)
  from a have "item_node x \<in> set cs" by simp
  from listed_stat[OF cs this] show ?thesis .
qed

text \<open>
  C2. When \<^verbatim>\<open>render_tree\<close> returns, the lines after the root line are the lines of the items
  of \<^term>\<open>rendered ul root\<close>, in order; each item's entry is the entry at the item's position
  in the tree; the line of an entry comes before the line of every entry below it (an entry
  at an extension of its position); and of two children of one directory (positions
  \<open>p @ [a]\<close> and \<open>p @ [b]\<close>) the one whose line comes first is a directory if the other is, and
  when both are of one kind its name in lower case (\<^verbatim>\<open>str.lower\<close>) is not greater than the
  other's: for names of ASCII characters, the name with every letter \<^verbatim>\<open>A..Z\<close> replaced by its
  small letter, compared code point by code point.
\<close>

theorem render_tree_preorder_sorted:
  assumes "render_tree ul rs root = Inr lines"
  shows "lines = ((if name root \<noteq> [] then name root else rs) @ lit ''/'')
                   # map item_line (rendered ul root)
    \<and> (\<forall>i. i < length (rendered ul root) \<longrightarrow>
          node_at ul root (item_pos (rendered ul root ! i))
            = Some (item_node (rendered ul root ! i)))
    \<and> (\<forall>i j q. i < length (rendered ul root) \<and> j < length (rendered ul root) \<and> q \<noteq> []
            \<and> item_pos (rendered ul root ! j) = item_pos (rendered ul root ! i) @ q
          \<longrightarrow> i < j)
    \<and> (\<forall>i j p a b. i < j \<and> j < length (rendered ul root)
            \<and> item_pos (rendered ul root ! i) = p @ [a]
            \<and> item_pos (rendered ul root ! j) = p @ [b]
          \<longrightarrow> (is_dir (item_node (rendered ul root ! j)) = Inr True
                  \<longrightarrow> is_dir (item_node (rendered ul root ! i)) = Inr True)
            \<and> (is_dir (item_node (rendered ul root ! i))
                  = is_dir (item_node (rendered ul root ! j))
                 \<longrightarrow> lower ul (name (item_node (rendered ul root ! i)))
                       \<le> lower ul (name (item_node (rendered ul root ! j)))
                   \<and> (list_all (\<lambda>c. c < 128) (name (item_node (rendered ul root ! i)))
                      \<and> list_all (\<lambda>c. c < 128) (name (item_node (rendered ul root ! j)))
                      \<longrightarrow> map (\<lambda>c. if 0x41 \<le> c \<and> c \<le> 0x5A then c + 0x20 else c)
                              (name (item_node (rendered ul root ! i)))
                            \<le> map (\<lambda>c. if 0x41 \<le> c \<and> c \<le> 0x5A then c + 0x20 else c)
                                (name (item_node (rendered ul root ! j))))))"
proof (intro conjI allI impI)
  from render_tree_trace[OF assms]
  show "lines = ((if name root \<noteq> [] then name root else rs) @ lit ''/'')
                   # map item_line (rendered ul root)" .
next
  fix i assume "i < length (rendered ul root)"
  then show "node_at ul root (item_pos (rendered ul root ! i))
               = Some (item_node (rendered ul root ! i))"
    by (rule rendered_node_at)
next
  fix i j q
  assume "i < length (rendered ul root) \<and> j < length (rendered ul root) \<and> q \<noteq> []
            \<and> item_pos (rendered ul root ! j) = item_pos (rendered ul root ! i) @ q"
  then show "i < j" using rendered_ancestor_first by blast
next
  fix i j p a b
  assume h: "i < j \<and> j < length (rendered ul root)
            \<and> item_pos (rendered ul root ! i) = p @ [a]
            \<and> item_pos (rendered ul root ! j) = p @ [b]"
  let ?x = "item_node (rendered ul root ! i)"
  let ?y = "item_node (rendered ul root ! j)"
  from h have k: "key ul ?x \<le> key ul ?y"
    using rendered_siblings by blast
  from h have "rendered ul root ! i \<in> set (rendered ul root)" by simp
  from rendered_stat[OF this] obtain bx where bx: "is_dir ?x = Inr bx" by blast
  {
    assume "is_dir ?y = Inr True"
    with k bx show "is_dir ?x = Inr True"
      by (cases bx) (simp_all add: key_def)
  }
  {
    assume "is_dir ?x = is_dir ?y"
    with k show l: "lower ul (name ?x) \<le> lower ul (name ?y)"
      by (simp add: key_def split: if_splits)
    assume "list_all (\<lambda>c. c < 128) (name ?x) \<and> list_all (\<lambda>c. c < 128) (name ?y)"
    with l show "map (\<lambda>c. if 0x41 \<le> c \<and> c \<le> 0x5A then c + 0x20 else c) (name ?x)
                   \<le> map (\<lambda>c. if 0x41 \<le> c \<and> c \<le> 0x5A then c + 0x20 else c) (name ?y)"
      by (simp add: lower_def ascii_lower_def[abs_def])
  }
qed

lemma lower_example:
  "lower ul (lit ''a.txt'') = lit ''a.txt''" "lower ul (lit ''B.txt'') = lit ''b.txt''"
  "lower ul (lit ''c.txt'') = lit ''c.txt''"
  "lower ul (lit ''sub'') = lit ''sub''" "lower ul (lit ''Tmp'') = lit ''tmp''"
  by (simp_all add: lower_def ascii_lower_def lit_def)

lemma lit_order_example:
  "lit ''sub'' < lit ''tmp''" "lit ''a.txt'' < lit ''b.txt''"
  "lit ''Tmp'' < lit ''sub''" "lit ''B.txt'' < lit ''a.txt''"
  by (simp_all add: lit_def)

lemma list_children_sorted_example:
  "list_children_sorted ul
       (Dir (lit ''r'') [File (lit ''B.txt''), Dir (lit ''Tmp'') [], File (lit ''a.txt''),
                         Dir (lit ''sub'') [File (lit ''c.txt'')]])
     = Inr [Dir (lit ''sub'') [File (lit ''c.txt'')], Dir (lit ''Tmp'') [],
            File (lit ''a.txt''), File (lit ''B.txt'')]"
  "list_children_sorted ul (Dir (lit ''sub'') [File (lit ''c.txt'')]) = Inr [File (lit ''c.txt'')]"
  "list_children_sorted ul (Dir (lit ''Tmp'') []) = Inr []"
  using lit_order_example
  by (simp_all add: eval_defs lower_example less_le_not_le)

theorem render_tree_preorder_sorted_witness:
  "render_tree (\<lambda>s. s) (lit ''/r'')
       (Dir (lit ''r'') [File (lit ''B.txt''), Dir (lit ''Tmp'') [], File (lit ''a.txt''),
                         Dir (lit ''sub'') [File (lit ''c.txt'')]])
     = Inr [lit ''r/'', tee @ lit ''sub/'', pipe @ corner @ lit ''c.txt'', tee @ lit ''Tmp/'',
            tee @ lit ''a.txt'', corner @ lit ''B.txt'']
   \<and> map item_pos (rendered (\<lambda>s. s)
       (Dir (lit ''r'') [File (lit ''B.txt''), Dir (lit ''Tmp'') [], File (lit ''a.txt''),
                         Dir (lit ''sub'') [File (lit ''c.txt'')]]))
     = [[0], [0, 0], [1], [2], [3]]
   \<and> map item_line (rendered (\<lambda>s. s)
       (Dir (lit ''r'') [File (lit ''B.txt''), Dir (lit ''Tmp'') [], File (lit ''a.txt''),
                         Dir (lit ''sub'') [File (lit ''c.txt'')]]))
     = [tee @ lit ''sub/'', pipe @ corner @ lit ''c.txt'', tee @ lit ''Tmp/'',
        tee @ lit ''a.txt'', corner @ lit ''B.txt'']"
proof -
  let ?t = "Dir (lit ''r'') [File (lit ''B.txt''), Dir (lit ''Tmp'') [], File (lit ''a.txt''),
                         Dir (lit ''sub'') [File (lit ''c.txt'')]]"
  let ?ls = "[lit ''r/'', tee @ lit ''sub/'', pipe @ corner @ lit ''c.txt'', tee @ lit ''Tmp/'',
            tee @ lit ''a.txt'', corner @ lit ''B.txt'']"
  have r: "render_tree (\<lambda>s. s) (lit ''/r'') ?t = Inr ?ls"
    by (simp add: render_tree_def list_children_sorted_example)
  have p: "map item_pos (rendered (\<lambda>s. s) ?t) = [[0], [0, 0], [1], [2], [3]]"
    by (simp add: rendered_def item_pos_def list_children_sorted_example)
  from render_tree_preorder_sorted[OF r] r p show ?thesis by simp
qed

subsection \<open>Ignored entries\<close>

lemma list_children_sorted_kept:
  "list_children_sorted ul d = Inr cs \<Longrightarrow> c \<in> set cs \<Longrightarrow> visible c"
  by (cases d)
     (auto simp: list_children_sorted_other list_children_sorted_Dir split: if_splits)

lemma not_ignored_name:
  "visible c \<Longrightarrow>
     (is_dir c = Inr True \<longrightarrow> name c \<notin> DEFAULT_IGNORE_DIRS)
     \<and> (is_dir c = Inr False \<longrightarrow> name c \<notin> DEFAULT_IGNORE_FILES)"
  by (auto simp: visible_def should_ignore_def Let_def split: if_splits)

lemma trace_kept:
  "x \<in> set (trace ul d pos P) \<Longrightarrow>
     visible (snd (snd x))
     \<and> (\<exists>pre b. b \<in> {corner, tee}
            \<and> fst (snd x) = pre @ b @ name (snd (snd x))
                              @ (if is_dir (snd (snd x)) = Inr True then lit ''/'' else []))"
  "\<forall>c \<in> set cs. visible c \<Longrightarrow> x \<in> set (trace_loop ul cs i n pos P) \<Longrightarrow>
     visible (snd (snd x))
     \<and> (\<exists>pre b. b \<in> {corner, tee}
            \<and> fst (snd x) = pre @ b @ name (snd (snd x))
                              @ (if is_dir (snd (snd x)) = Inr True then lit ''/'' else []))"
proof (induction ul d pos P and ul cs i n pos P arbitrary: x and x
       rule: trace_trace_loop.induct)
  case (1 ul dir_path pos prefix)
  from 1(2) obtain cs where cs: "list_children_sorted ul dir_path = Inr cs"
    and x: "x \<in> set (trace_loop ul cs 0 (length cs) pos prefix)"
    by (cases "list_children_sorted ul dir_path") auto
  from list_children_sorted_kept[OF cs] have "\<forall>c \<in> set cs. visible c" by blast
  from 1(1)[OF cs this x] show ?case .
next
  case (2 ul idx count pos prefix)
  then show ?case by simp
next
  case (3 ul child rest idx count pos prefix)
  let ?last = "int idx = int count - 1"
  let ?branch = "if ?last then corner else tee"
  let ?next = "prefix @ (if ?last then blank else pipe)"
  from 3(4) have rest_ok: "\<forall>c \<in> set rest. visible c" and child_ok: "visible child"
    by simp_all
  from trace_loop_Cons[OF 3(5)] obtain d where d: "is_dir child = Inr d"
    and "x = (pos @ [idx], prefix @ ?branch @ name child @ (if d then lit ''/'' else []), child)
         \<or> d \<and> x \<in> set (trace ul child (pos @ [idx]) ?next)
         \<or> x \<in> set (trace_loop ul rest (idx + 1) count pos prefix)"
    by blast
  then consider
      (head) "x = (pos @ [idx], prefix @ ?branch @ name child @ (if d then lit ''/'' else []),
                   child)"
    | (sub) "d" "x \<in> set (trace ul child (pos @ [idx]) ?next)"
    | (rest) "x \<in> set (trace_loop ul rest (idx + 1) count pos prefix)"
    by blast
  then show ?case
  proof cases
    case head
    with child_ok have "visible (snd (snd x))" by simp
    moreover from head d have "?branch \<in> {corner, tee}
        \<and> fst (snd x) = prefix @ ?branch @ name (snd (snd x))
                           @ (if is_dir (snd (snd x)) = Inr True then lit ''/'' else [])"
      by simp
    ultimately show ?thesis by blast
  next
    case sub
    from 3(1)[OF refl refl refl d sub] show ?thesis .
  next
    case rest
    show ?thesis
    proof (cases d)
      case True
      from 3(2)[OF refl refl refl d True rest_ok rest] show ?thesis .
    next
      case False
      from 3(3)[OF refl refl refl d False rest_ok rest] show ?thesis .
    qed
  qed
qed

lemma rendered_line:
  assumes "x \<in> set (rendered ul root)"
  shows "visible (item_node x)"
    and "\<exists>pre b. b \<in> {corner, tee}
           \<and> item_line x = pre @ b @ name (item_node x)
                               @ (if is_dir (item_node x) = Inr True then lit ''/'' else [])"
  using trace_kept(1)[of x ul root "[]" "[]"] assms
  by (simp_all add: rendered_def item_node_def item_line_def del: trace.simps)

text \<open>The pruned tree renders as the tree does.\<close>

lemma prune_simps [simp]:
  "name (prune c) = name c" "is_dir (prune c) = is_dir c"
  by (cases c; simp)+

lemma should_ignore_prune [simp]: "should_ignore (prune c) = should_ignore c"
  by (simp add: should_ignore_def split: sum.splits)

lemma sort_key_of_prune [simp]: "sort_key_of ul (prune c) = sort_key_of ul c"
  by (simp add: sort_key_of_def split: sum.splits)

lemma keep_children_prune:
  "keep_children (map prune (filter (\<lambda>c. should_ignore c \<noteq> Inr True) cs)) =
     (case keep_children cs of Inl e \<Rightarrow> Inl e | Inr kept \<Rightarrow> Inr (map prune kept))"
  by (induction cs) (auto split: sum.splits)

lemma keys_of_prune: "keys_of ul (map prune cs) = keys_of ul cs"
  by (induction cs) (auto split: sum.splits)

lemma sort_zip_prune:
  "map snd (sort_key fst (zip ks (map prune cs))) = map prune (map snd (sort_key fst (zip ks cs)))"
proof -
  have "zip ks (map prune cs) = map (\<lambda>p. (fst p, prune (snd p))) (zip ks cs)"
    by (simp add: zip_map2 case_prod_beta)
  then show ?thesis by (simp add: sort_key_map comp_def)
qed

lemma sort_children_prune:
  "sort_children ul (map prune cs) =
     (case sort_children ul cs of Inl e \<Rightarrow> Inl e | Inr r \<Rightarrow> Inr (map prune r))"
  by (simp add: sort_children_def keys_of_prune sort_zip_prune split: sum.splits)

lemma list_children_sorted_prune:
  "list_children_sorted ul (prune d) =
     (case list_children_sorted ul d of Inl e \<Rightarrow> Inl e | Inr cs \<Rightarrow> Inr (map prune cs))"
  by (cases d)
     (auto simp: list_children_sorted_def keep_children_prune sort_children_prune
           split: sum.splits)

lemma walk_prune:
  "walk ul (prune d) P lines = walk ul d P lines"
  "walk_loop ul (map prune cs) i n P lines = walk_loop ul cs i n P lines"
proof (induction ul d P lines and ul cs i n P lines rule: walk_walk_loop.induct)
  case (1 ul dir_path prefix lines)
  show ?case
  proof (cases "list_children_sorted ul dir_path")
    case (Inl e)
    then show ?thesis by (simp add: list_children_sorted_prune)
  next
    case (Inr cs)
    with 1[OF Inr] show ?thesis by (simp add: list_children_sorted_prune)
  qed
next
  case (2 ul idx count prefix lines)
  show ?case by simp
next
  case (3 ul child rest idx count prefix lines)
  let ?last = "int idx = int count - 1"
  let ?branch = "if ?last then corner else tee"
  let ?next = "prefix @ (if ?last then blank else pipe)"
  show ?case
  proof (cases "is_dir child")
    case (Inl e)
    then show ?thesis by (simp add: Let_def del: walk.simps)
  next
    case d: (Inr d)
    show ?thesis
    proof (cases d)
      case True
      let ?l = "prefix @ ?branch @ name child @ lit ''/''"
      have a: "walk ul (prune child) ?next (lines @ [?l]) = walk ul child ?next (lines @ [?l])"
        by (rule 3(1)[OF refl refl refl d True])
      show ?thesis
      proof (cases "walk ul child ?next (lines @ [?l])")
        case (Inl e)
        with a d True show ?thesis by (simp add: Let_def del: walk.simps)
      next
        case (Inr mid)
        from 3(2)[OF refl refl refl d True Inr] a Inr d True
        show ?thesis by (simp add: Let_def del: walk.simps)
      qed
    next
      case False
      from 3(3)[OF refl refl refl d False] d False
      show ?thesis by (simp add: Let_def del: walk.simps)
    qed
  qed
qed

lemma render_tree_prune: "render_tree ul rs (prune root) = render_tree ul rs root"
  by (simp add: render_tree_def Let_def walk_prune del: walk.simps)

text \<open>
  C4, as stated: no line of the output ends in a name of the ignore set of its kind, and a
  directory with a name of the directory-ignore set contributes no line. It fails at the
  root: \<^verbatim>\<open>render_tree\<close> never passes the root to \<^verbatim>\<open>should_ignore\<close>, so a root named
  \<^verbatim>\<open>dist\<close> has its line \<^verbatim>\<open>dist/\<close> and the lines of its entries.
\<close>

theorem render_tree_root_counterexample:
  "render_tree (\<lambda>s. s) (lit ''/work/dist'') (Dir (lit ''dist'') [File (lit ''a.txt'')])
     = Inr [lit ''dist/'', corner @ lit ''a.txt'']
   \<and> is_dir (Dir (lit ''dist'') [File (lit ''a.txt'')]) = Inr True
   \<and> lit ''dist'' \<in> DEFAULT_IGNORE_DIRS"
  by (simp add: render_tree_def eval_defs Let_def)

text \<open>
  C4, amended: when \<^verbatim>\<open>render_tree\<close> returns, every line after the root line is the line of
  an entry, made of a prefix, a connector and the entry's name (and \<^verbatim>\<open>/\<close> for a directory),
  and that name is not in the directory-ignore set for a directory and not in the
  file-ignore set for a file; and
  the output is the output for the tree from which every ignored entry below the root is
  removed with all it contains, so an ignored directory below the root contributes no line
  whatever its contents.
\<close>

theorem render_tree_filtering:
  assumes "render_tree ul rs root = Inr lines"
  shows "lines = ((if name root \<noteq> [] then name root else rs) @ lit ''/'')
                   # map item_line (rendered ul root)
    \<and> (\<forall>x \<in> set (rendered ul root).
          (\<exists>d. is_dir (item_node x) = Inr d)
        \<and> (is_dir (item_node x) = Inr True \<longrightarrow>
             name (item_node x) \<notin> DEFAULT_IGNORE_DIRS
             \<and> (\<exists>pre b. b \<in> {corner, tee}
                    \<and> item_line x = pre @ b @ name (item_node x) @ lit ''/''))
        \<and> (is_dir (item_node x) = Inr False \<longrightarrow>
             name (item_node x) \<notin> DEFAULT_IGNORE_FILES
             \<and> (\<exists>pre b. b \<in> {corner, tee}
                    \<and> item_line x = pre @ b @ name (item_node x))))
    \<and> render_tree ul rs (prune root) = Inr lines"
proof (intro conjI ballI)
  from render_tree_trace[OF assms]
  show "lines = ((if name root \<noteq> [] then name root else rs) @ lit ''/'')
                   # map item_line (rendered ul root)" .
next
  fix x assume x: "x \<in> set (rendered ul root)"
  have ni: "visible (item_node x)"
    and fmt: "\<exists>pre b. b \<in> {corner, tee}
           \<and> item_line x = pre @ b @ name (item_node x)
                               @ (if is_dir (item_node x) = Inr True then lit ''/'' else [])"
    by (rule rendered_line[OF x])+
  note nm = not_ignored_name[OF ni]
  from rendered_stat[OF x] show "\<exists>d. is_dir (item_node x) = Inr d" .
  show "is_dir (item_node x) = Inr True \<longrightarrow>
             name (item_node x) \<notin> DEFAULT_IGNORE_DIRS
             \<and> (\<exists>pre b. b \<in> {corner, tee}
                    \<and> item_line x = pre @ b @ name (item_node x) @ lit ''/'')"
  proof
    assume d: "is_dir (item_node x) = Inr True"
    with fmt have "\<exists>pre b. b \<in> {corner, tee}
                    \<and> item_line x = pre @ b @ name (item_node x) @ lit ''/''" by simp
    with nm d show "name (item_node x) \<notin> DEFAULT_IGNORE_DIRS
             \<and> (\<exists>pre b. b \<in> {corner, tee}
                    \<and> item_line x = pre @ b @ name (item_node x) @ lit ''/'')" by blast
  qed
  show "is_dir (item_node x) = Inr False \<longrightarrow>
             name (item_node x) \<notin> DEFAULT_IGNORE_FILES
             \<and> (\<exists>pre b. b \<in> {corner, tee}
                    \<and> item_line x = pre @ b @ name (item_node x))"
  proof
    assume d: "is_dir (item_node x) = Inr False"
    with fmt have "\<exists>pre b. b \<in> {corner, tee}
                    \<and> item_line x = pre @ b @ name (item_node x)" by simp
    with nm d show "name (item_node x) \<notin> DEFAULT_IGNORE_FILES
             \<and> (\<exists>pre b. b \<in> {corner, tee}
                    \<and> item_line x = pre @ b @ name (item_node x))" by blast
  qed
next
  from assms show "render_tree ul rs (prune root) = Inr lines"
    by (simp only: render_tree_prune)
qed

theorem render_tree_filtering_witness:
  "render_tree (\<lambda>s. s) (lit ''/r'')
       (Dir (lit ''r'') [Dir (lit ''node_modules'') [File (lit ''x.js''), Dir (lit ''y'') []],
                         File (lit ''.DS_Store''), File (lit ''build''),
                         Dir (lit ''src'') [Dir (lit ''dist'') [File (lit ''z'')]]])
     = Inr [lit ''r/'', tee @ lit ''src/'', corner @ lit ''build'']
   \<and> prune (Dir (lit ''r'') [Dir (lit ''node_modules'') [File (lit ''x.js''), Dir (lit ''y'') []],
                         File (lit ''.DS_Store''), File (lit ''build''),
                         Dir (lit ''src'') [Dir (lit ''dist'') [File (lit ''z'')]]])
     = Dir (lit ''r'') [File (lit ''build''), Dir (lit ''src'') []]
   \<and> render_tree (\<lambda>s. s) (lit ''/r'') (Dir (lit ''r'') [File (lit ''build''), Dir (lit ''src'') []])
     = Inr [lit ''r/'', tee @ lit ''src/'', corner @ lit ''build'']"
proof -
  let ?t = "Dir (lit ''r'') [Dir (lit ''node_modules'') [File (lit ''x.js''), Dir (lit ''y'') []],
                         File (lit ''.DS_Store''), File (lit ''build''),
                         Dir (lit ''src'') [Dir (lit ''dist'') [File (lit ''z'')]]]"
  have r: "render_tree (\<lambda>s. s) (lit ''/r'') ?t
             = Inr [lit ''r/'', tee @ lit ''src/'', corner @ lit ''build'']"
    by (simp add: render_tree_def eval_defs Let_def)
  have p: "prune ?t = Dir (lit ''r'') [File (lit ''build''), Dir (lit ''src'') []]"
    by (simp add: should_ignore_def DEFAULT_IGNORE_DIRS_def DEFAULT_IGNORE_FILES_def
          INCLUDE_HIDDEN_def)
  from render_tree_filtering[OF r] r p show ?thesis by simp
qed

subsection \<open>Every entry at a position has a line\<close>

lemma listed_is_dir:
  "list_children_sorted ul c = Inr cs \<Longrightarrow> cs \<noteq> [] \<Longrightarrow> is_dir c = Inr True"
  by (cases c) (auto simp: list_children_sorted_other split: if_splits)

lemma node_at_is_dir:
  "node_at ul c (j # q) = Some d \<Longrightarrow> is_dir c = Inr True"
  by (auto split: sum.splits if_splits dest!: listed_is_dir)

lemma trace_complete:
  "node_at ul d q = Some c \<Longrightarrow> q \<noteq> [] \<Longrightarrow> \<exists>l. (pos @ q, l, c) \<in> set (trace ul d pos P)"
  "\<forall>c \<in> set cs. \<exists>b. is_dir c = Inr b \<Longrightarrow> k < length cs \<Longrightarrow>
     node_at ul (cs ! k) q = Some c \<Longrightarrow>
     \<exists>l. (pos @ (i + k) # q, l, c) \<in> set (trace_loop ul cs i n pos P)"
proof (induction ul d pos P and ul cs i n pos P arbitrary: q c and k q c
       rule: trace_trace_loop.induct)
  case (1 ul dir_path pos prefix)
  from 1(3) obtain k q' where q: "q = k # q'" by (cases q) auto
  with 1(2) obtain cs where cs: "list_children_sorted ul dir_path = Inr cs"
    and k: "k < length cs" and n: "node_at ul (cs ! k) q' = Some c"
    by (auto split: sum.splits if_splits)
  from listed_stat[OF cs] have "\<forall>c \<in> set cs. \<exists>b. is_dir c = Inr b" by blast
  from 1(1)[OF cs this k n] cs q show ?case by simp
next
  case (2 ul idx count pos prefix)
  then show ?case by simp
next
  case (3 ul child rest idx count pos prefix)
  let ?last = "int idx = int count - 1"
  let ?branch = "if ?last then corner else tee"
  let ?next = "prefix @ (if ?last then blank else pipe)"
  let ?rest = "trace_loop ul rest (idx + 1) count pos prefix"
  from 3(4) have rest_ok: "\<forall>c \<in> set rest. \<exists>b. is_dir c = Inr b" by simp
  from 3(4) obtain d where d: "is_dir child = Inr d" by auto
  let ?line = "prefix @ ?branch @ name child @ (if d then lit ''/'' else [])"
  have split: "set (trace_loop ul (child # rest) idx count pos prefix) =
     insert (pos @ [idx], ?line, child)
       ((if d then set (trace ul child (pos @ [idx]) ?next) else {}) \<union> set ?rest)"
    using d by (simp add: Let_def del: trace.simps)
  show ?case
  proof (cases k)
    case 0
    with 3(6) have n: "node_at ul child q = Some c" by simp
    show ?thesis
    proof (cases q)
      case Nil
      with n 0 show ?thesis unfolding split by (auto simp del: trace.simps)
    next
      case (Cons j q')
      from n[unfolded Cons] have "is_dir child = Inr True" by (rule node_at_is_dir)
      with d have t: "d" by simp
      from Cons have "q \<noteq> []" by simp
      from 3(1)[OF refl refl refl d t n this]
      obtain l where "((pos @ [idx]) @ q, l, c) \<in> set (trace ul child (pos @ [idx]) ?next)"
        by blast
      with t 0 show ?thesis unfolding split by (auto simp del: trace.simps)
    qed
  next
    case (Suc k')
    with 3(5,6) have k': "k' < length rest" and n: "node_at ul (rest ! k') q = Some c"
      by simp_all
    have "\<exists>l. (pos @ (idx + 1 + k') # q, l, c) \<in> set ?rest"
    proof (cases d)
      case True
      from 3(2)[OF refl refl refl d True rest_ok k' n] show ?thesis .
    next
      case False
      from 3(3)[OF refl refl refl d False rest_ok k' n] show ?thesis .
    qed
    with Suc show ?thesis unfolding split by (auto simp del: trace.simps)
  qed
qed

lemma rendered_complete:
  assumes "node_at ul root pos = Some c" "pos \<noteq> []"
  shows "\<exists>x \<in> set (rendered ul root). item_pos x = pos \<and> item_node x = c"
proof -
  from trace_complete(1)[OF assms, of "[]" "[]"]
  obtain l where "(pos, l, c) \<in> set (rendered ul root)"
    by (auto simp: rendered_def simp del: trace.simps)
  then show ?thesis by (force simp: item_pos_def item_node_def)
qed

lemma rendered_lines:
  assumes "render_tree ul rs root = Inr lines" "x \<in> set (rendered ul root)"
  shows "item_line x \<in> set lines"
  using render_tree_trace[OF assms(1)] assms(2) by auto

text \<open>
  When the walk from the root returns, so does the walk from every directory at a position
  of the tree.
\<close>

lemma listable_node_at:
  "listable root \<Longrightarrow> node_at ul root pos = Some d \<Longrightarrow> pos = [] \<or> is_dir d = Inr True \<Longrightarrow>
     listable d"
proof (induction pos arbitrary: root)
  case Nil
  then show ?case by simp
next
  case (Cons i pos)
  from Cons.prems(2) obtain cs where cs: "list_children_sorted ul root = Inr cs"
    and i: "i < length cs" and n: "node_at ul (cs ! i) pos = Some d"
    by (auto split: sum.splits if_splits)
  from i have m: "cs ! i \<in> set cs" by simp
  have "is_dir (cs ! i) = Inr True"
  proof (cases pos)
    case Nil
    with n Cons.prems(3) show ?thesis by simp
  next
    case (Cons j q)
    from n[unfolded Cons] show ?thesis by (rule node_at_is_dir)
  qed
  with Cons.prems(1) cs m have l: "listable (cs ! i)"
    unfolding listable_iff[of root ul] by auto
  show ?case
  proof (cases pos)
    case Nil
    with n l show ?thesis by simp
  next
    case (Cons j q)
    with Cons.prems(3) have "pos = [] \<or> is_dir d = Inr True" by simp
    from Cons.IH[OF l n this] show ?thesis .
  qed
qed

subsection \<open>A directory that may not be listed\<close>

text \<open>
  C7. A subdirectory whose enumeration raises a permission error: listing its children
  yields the empty sequence and no exception, and walking it leaves the buffer as it is. When
  the loop over the children of a directory meets it, the loop appends its directory line
  (prefix, connector, name and \<^verbatim>\<open>/\<close>) and goes on to the next sibling with nothing appended
  in between. In the output of \<^verbatim>\<open>render_tree\<close>, such a subdirectory at a position of the
  tree has its directory line, and no line belongs to a position below it.
\<close>

theorem permission_denied_subdirectory:
  "list_children_sorted ul (Unlistable n PermissionError) = Inr []
   \<and> walk ul (Unlistable n PermissionError) P buf = Inr buf
   \<and> walk_loop ul (Unlistable n PermissionError # rest) idx count P buf
       = walk_loop ul rest (idx + 1) count P
           (buf @ [P @ (if int idx = int count - 1 then corner else tee) @ n @ lit ''/''])
   \<and> (render_tree ul rs root = Inr lines \<and> pos \<noteq> []
        \<and> node_at ul root pos = Some (Unlistable n PermissionError)
      \<longrightarrow> (\<exists>x \<in> set (rendered ul root).
              item_pos x = pos \<and> item_node x = Unlistable n PermissionError
              \<and> (\<exists>pre b. b \<in> {corner, tee} \<and> item_line x = pre @ b @ n @ lit ''/'')
              \<and> item_line x \<in> set lines)
          \<and> (\<forall>y \<in> set (rendered ul root). \<forall>q. item_pos y = pos @ q \<longrightarrow> q = []))"
proof (intro conjI impI)
  show l: "list_children_sorted ul (Unlistable n PermissionError) = Inr []"
    by (simp add: list_children_sorted_def)
  then show "walk ul (Unlistable n PermissionError) P buf = Inr buf" by simp
  from l show "walk_loop ul (Unlistable n PermissionError # rest) idx count P buf
       = walk_loop ul rest (idx + 1) count P
           (buf @ [P @ (if int idx = int count - 1 then corner else tee) @ n @ lit ''/''])"
    by (simp add: Let_def)
next
  assume h: "render_tree ul rs root = Inr lines \<and> pos \<noteq> []
        \<and> node_at ul root pos = Some (Unlistable n PermissionError)"
  then obtain x where x: "x \<in> set (rendered ul root)" "item_pos x = pos"
    "item_node x = Unlistable n PermissionError"
    using rendered_complete by blast
  from rendered_line(2)[OF x(1)] x(3)
  have "\<exists>pre b. b \<in> {corner, tee} \<and> item_line x = pre @ b @ n @ lit ''/''" by simp
  with x rendered_lines[of ul rs root lines x] h
  show "\<exists>x \<in> set (rendered ul root).
              item_pos x = pos \<and> item_node x = Unlistable n PermissionError
              \<and> (\<exists>pre b. b \<in> {corner, tee} \<and> item_line x = pre @ b @ n @ lit ''/'')
              \<and> item_line x \<in> set lines"
    by blast
  show "\<forall>y \<in> set (rendered ul root). \<forall>q. item_pos y = pos @ q \<longrightarrow> q = []"
  proof (intro ballI allI impI)
    fix y q assume y: "y \<in> set (rendered ul root)" and q: "item_pos y = pos @ q"
    from y obtain i where "i < length (rendered ul root)" "rendered ul root ! i = y"
      by (auto simp: in_set_conv_nth)
    with rendered_node_at[of i ul root] q
    have "node_at ul root (pos @ q) = Some (item_node y)" by simp
    with h have "node_at ul (Unlistable n PermissionError) q = Some (item_node y)"
      by (simp add: node_at_append)
    then show "q = []"
      by (cases q) (auto simp: list_children_sorted_def)
  qed
qed

theorem permission_denied_subdirectory_witness:
  "render_tree (\<lambda>s. s) (lit ''/r'')
       (Dir (lit ''r'') [File (lit ''a.txt''), Unlistable (lit ''locked'') PermissionError])
     = Inr [lit ''r/'', tee @ lit ''locked/'', corner @ lit ''a.txt'']
   \<and> node_at (\<lambda>s. s)
       (Dir (lit ''r'') [File (lit ''a.txt''), Unlistable (lit ''locked'') PermissionError]) [0]
     = Some (Unlistable (lit ''locked'') PermissionError)
   \<and> (\<exists>x \<in> set (rendered (\<lambda>s. s)
                   (Dir (lit ''r'') [File (lit ''a.txt''),
                                     Unlistable (lit ''locked'') PermissionError])).
         item_pos x = [0] \<and> item_node x = Unlistable (lit ''locked'') PermissionError
         \<and> (\<exists>pre b. b \<in> {corner, tee} \<and> item_line x = pre @ b @ lit ''locked'' @ lit ''/'')
         \<and> item_line x \<in> set [lit ''r/'', tee @ lit ''locked/'', corner @ lit ''a.txt''])"
proof -
  let ?t = "Dir (lit ''r'') [File (lit ''a.txt''), Unlistable (lit ''locked'') PermissionError]"
  let ?ls = "[lit ''r/'', tee @ lit ''locked/'', corner @ lit ''a.txt'']"
  have l: "list_children_sorted (\<lambda>s. s) ?t
             = Inr [Unlistable (lit ''locked'') PermissionError, File (lit ''a.txt'')]"
    "list_children_sorted (\<lambda>s. s) (Unlistable (lit ''locked'') PermissionError) = Inr []"
    by (simp_all add: eval_defs)
  have r: "render_tree (\<lambda>s. s) (lit ''/r'') ?t = Inr ?ls"
    by (simp add: render_tree_def l)
  have n: "node_at (\<lambda>s. s) ?t [0] = Some (Unlistable (lit ''locked'') PermissionError)"
    by (simp add: l)
  from permission_denied_subdirectory
         [where ul = "\<lambda>s. s" and n = "lit ''locked''" and rs = "lit ''/r''" and root = ?t
            and lines = ?ls and pos = "[0]"]
       r n
  show ?thesis by blast
qed

subsection \<open>The output file of an earlier run\<close>

text \<open>
  C10, as stated: a file named \<^verbatim>\<open>DIR.txt\<close> anywhere in the tree has a line in the output. It
  fails for a file the walk does not reach: \<^verbatim>\<open>should_ignore\<close> is false for the file, and the
  file is below the ignored directory \<^verbatim>\<open>node_modules\<close>, so the output is the root line
  alone.
\<close>

theorem dir_txt_below_ignored_counterexample:
  "should_ignore (File (lit ''DIR.txt'')) = Inr False
   \<and> render_tree (\<lambda>s. s) (lit ''/r'')
       (Dir (lit ''r'') [Dir (lit ''node_modules'') [File (lit ''DIR.txt'')]])
     = Inr [lit ''r/'']"
  by (simp add: render_tree_def eval_defs Let_def)

text \<open>
  C10, amended. \<^verbatim>\<open>DIR.txt\<close> is in neither ignore set and \<^verbatim>\<open>should_ignore\<close> is false for a
  file of that name. So when \<^verbatim>\<open>render_tree\<close> returns, a file \<^verbatim>\<open>DIR.txt\<close> among the entries of
  a directory the walk reaches (the root, at position \<open>[]\<close>, or a directory at a position
  any number of levels below it: one that is not ignored and not below an ignored directory
  or one that may not be listed) has a line in the output, ending in \<^verbatim>\<open>DIR.txt\<close>.
\<close>

theorem dir_txt_rendered:
  "lit ''DIR.txt'' \<notin> DEFAULT_IGNORE_DIRS \<and> lit ''DIR.txt'' \<notin> DEFAULT_IGNORE_FILES
   \<and> should_ignore (File (lit ''DIR.txt'')) = Inr False
   \<and> (render_tree ul rs root = Inr lines \<and> node_at ul root pos = Some d
        \<and> iterdir d = Inr cs \<and> File (lit ''DIR.txt'') \<in> set cs
      \<longrightarrow> (\<exists>x \<in> set (rendered ul root).
              item_node x = File (lit ''DIR.txt'') \<and> (\<exists>k. item_pos x = pos @ [k])
              \<and> (\<exists>pre b. b \<in> {corner, tee} \<and> item_line x = pre @ b @ lit ''DIR.txt'')
              \<and> item_line x \<in> set lines))"
proof (intro conjI impI)
  show "lit ''DIR.txt'' \<notin> DEFAULT_IGNORE_DIRS" by (simp add: DEFAULT_IGNORE_DIRS_def)
  show "lit ''DIR.txt'' \<notin> DEFAULT_IGNORE_FILES" by (simp add: DEFAULT_IGNORE_FILES_def)
  show ni: "should_ignore (File (lit ''DIR.txt'')) = Inr False"
    by (simp add: should_ignore_def DEFAULT_IGNORE_FILES_def INCLUDE_HIDDEN_def)
  assume h: "render_tree ul rs root = Inr lines \<and> node_at ul root pos = Some d
        \<and> iterdir d = Inr cs \<and> File (lit ''DIR.txt'') \<in> set cs"
  then obtain n where d: "d = Dir n cs" by (cases d) auto
  from h have "listable root" by (auto dest: render_tree_listable)
  from listable_node_at[OF this, of ul pos d] h d have "listable d" by simp
  then obtain cs' where l: "list_children_sorted ul d = Inr cs'"
    unfolding listable_iff[of d ul] by blast
  with d have cs': "cs' = sort_key (key ul) (filter visible cs)"
    by (simp add: list_children_sorted_Dir)
  from h ni have "File (lit ''DIR.txt'') \<in> set cs'"
    unfolding cs' by (simp add: visible_def)
  then obtain k where k: "k < length cs'" "cs' ! k = File (lit ''DIR.txt'')"
    by (auto simp: in_set_conv_nth)
  from h l k have "node_at ul root (pos @ [k]) = Some (File (lit ''DIR.txt''))"
    by (simp add: node_at_append)
  from rendered_complete[OF this]
  obtain x where x: "x \<in> set (rendered ul root)" "item_pos x = pos @ [k]"
    "item_node x = File (lit ''DIR.txt'')" by auto
  from rendered_line(2)[OF x(1)] x(3)
  have "\<exists>pre b. b \<in> {corner, tee} \<and> item_line x = pre @ b @ lit ''DIR.txt''" by simp
  with x rendered_lines[of ul rs root lines x] h
  show "\<exists>x \<in> set (rendered ul root).
              item_node x = File (lit ''DIR.txt'') \<and> (\<exists>k. item_pos x = pos @ [k])
              \<and> (\<exists>pre b. b \<in> {corner, tee} \<and> item_line x = pre @ b @ lit ''DIR.txt'')
              \<and> item_line x \<in> set lines"
    by blast
qed

theorem dir_txt_rendered_witness:
  "render_tree (\<lambda>s. s) (lit ''/r'')
       (Dir (lit ''r'') [File (lit ''DIR.txt''), Dir (lit ''docs'') [File (lit ''DIR.txt'')]])
     = Inr [lit ''r/'', tee @ lit ''docs/'', pipe @ corner @ lit ''DIR.txt'',
            corner @ lit ''DIR.txt'']
   \<and> node_at (\<lambda>s. s)
       (Dir (lit ''r'') [File (lit ''DIR.txt''), Dir (lit ''docs'') [File (lit ''DIR.txt'')]]) [0]
     = Some (Dir (lit ''docs'') [File (lit ''DIR.txt'')])
   \<and> (\<exists>x \<in> set (rendered (\<lambda>s. s)
          (Dir (lit ''r'') [File (lit ''DIR.txt''), Dir (lit ''docs'') [File (lit ''DIR.txt'')]])).
         item_node x = File (lit ''DIR.txt'') \<and> (\<exists>k. item_pos x = [0] @ [k])
         \<and> (\<exists>pre b. b \<in> {corner, tee} \<and> item_line x = pre @ b @ lit ''DIR.txt'')
         \<and> item_line x
             \<in> set [lit ''r/'', tee @ lit ''docs/'', pipe @ corner @ lit ''DIR.txt'',
                    corner @ lit ''DIR.txt''])
   \<and> (\<exists>x \<in> set (rendered (\<lambda>s. s)
          (Dir (lit ''r'') [File (lit ''DIR.txt''), Dir (lit ''docs'') [File (lit ''DIR.txt'')]])).
         item_node x = File (lit ''DIR.txt'') \<and> (\<exists>k. item_pos x = [] @ [k])
         \<and> (\<exists>pre b. b \<in> {corner, tee} \<and> item_line x = pre @ b @ lit ''DIR.txt'')
         \<and> item_line x
             \<in> set [lit ''r/'', tee @ lit ''docs/'', pipe @ corner @ lit ''DIR.txt'',
                    corner @ lit ''DIR.txt''])"
proof -
  let ?t = "Dir (lit ''r'') [File (lit ''DIR.txt''), Dir (lit ''docs'') [File (lit ''DIR.txt'')]]"
  let ?ls = "[lit ''r/'', tee @ lit ''docs/'', pipe @ corner @ lit ''DIR.txt'',
              corner @ lit ''DIR.txt'']"
  have l: "list_children_sorted (\<lambda>s. s) ?t
             = Inr [Dir (lit ''docs'') [File (lit ''DIR.txt'')], File (lit ''DIR.txt'')]"
    "list_children_sorted (\<lambda>s. s) (Dir (lit ''docs'') [File (lit ''DIR.txt'')])
       = Inr [File (lit ''DIR.txt'')]"
    by (simp_all add: eval_defs)
  have r: "render_tree (\<lambda>s. s) (lit ''/r'') ?t = Inr ?ls"
    by (simp add: render_tree_def l)
  have n: "node_at (\<lambda>s. s) ?t [0] = Some (Dir (lit ''docs'') [File (lit ''DIR.txt'')])"
    "node_at (\<lambda>s. s) ?t [] = Some ?t"
    by (simp_all add: l)
  have i: "iterdir (Dir (lit ''docs'') [File (lit ''DIR.txt'')]) = Inr [File (lit ''DIR.txt'')]"
    "File (lit ''DIR.txt'') \<in> set [File (lit ''DIR.txt'')]"
    "iterdir ?t = Inr [File (lit ''DIR.txt''), Dir (lit ''docs'') [File (lit ''DIR.txt'')]]"
    "File (lit ''DIR.txt'')
       \<in> set [File (lit ''DIR.txt''), Dir (lit ''docs'') [File (lit ''DIR.txt'')]]"
    by simp_all
  from dir_txt_rendered
         [where ul = "\<lambda>s. s" and rs = "lit ''/r''" and root = ?t and lines = ?ls
            and pos = "[0]" and d = "Dir (lit ''docs'') [File (lit ''DIR.txt'')]"
            and cs = "[File (lit ''DIR.txt'')]"]
       dir_txt_rendered
         [where ul = "\<lambda>s. s" and rs = "lit ''/r''" and root = ?t and lines = ?ls
            and pos = "[]" and d = ?t
            and cs = "[File (lit ''DIR.txt''), Dir (lit ''docs'') [File (lit ''DIR.txt'')]]"]
       r n i
  show ?thesis by blast
qed

subsection \<open>Root detection: the query and the fallback\<close>

lemma chain_ancestors:
  "cur # parents cur = map (ancestor cur) [0..<Suc (length cur)]"
proof -
  have "[0..<Suc (length cur)] = 0 # map Suc [0..<length cur]"
    by (simp add: upt_conv_Cons map_Suc_upt del: upt_Suc)
  then show ?thesis by (simp add: parents_def ancestor_def comp_def del: upt_Suc)
qed

text \<open>
  The loop returns the first path of the list under which \<^verbatim>\<open>.git\<close> exists, when the
  existence test returns \<^verbatim>\<open>False\<close> on the paths before it; it raises what the test raises
  first.
\<close>

lemma find_git_first:
  "i < length ps \<Longrightarrow> exists_path h (ps ! i @ [lit ''.git'']) = Inr True \<Longrightarrow>
     \<forall>j<i. exists_path h (ps ! j @ [lit ''.git'']) = Inr False \<Longrightarrow>
     find_git h ps = Inr (Some (ps ! i))"
proof (induction ps arbitrary: i)
  case Nil
  then show ?case by simp
next
  case (Cons p ps)
  show ?case
  proof (cases i)
    case 0
    with Cons.prems show ?thesis by simp
  next
    case (Suc i')
    with Cons.prems(3) have p: "exists_path h (p @ [lit ''.git'']) = Inr False" by auto
    from Suc Cons.prems(3) have "\<forall>j<i'. exists_path h (ps ! j @ [lit ''.git'']) = Inr False"
      by auto
    with Cons.IH[of i'] Cons.prems(1,2) Suc p show ?thesis by simp
  qed
qed

lemma find_git_none:
  "\<forall>j<length ps. exists_path h (ps ! j @ [lit ''.git'']) = Inr False \<Longrightarrow>
     find_git h ps = Inr None"
proof (induction ps)
  case Nil
  then show ?case by simp
next
  case (Cons p ps)
  from Cons.prems have p: "exists_path h (p @ [lit ''.git'']) = Inr False" by auto
  from Cons.prems have "\<forall>j<length ps. exists_path h (ps ! j @ [lit ''.git'']) = Inr False"
    by auto
  with Cons.IH p show ?case by simp
qed

lemma find_git_raises:
  "i < length ps \<Longrightarrow> exists_path h (ps ! i @ [lit ''.git'']) = Inl e \<Longrightarrow>
     \<forall>j<i. exists_path h (ps ! j @ [lit ''.git'']) = Inr False \<Longrightarrow>
     find_git h ps = Inl e"
proof (induction ps arbitrary: i)
  case Nil
  then show ?case by simp
next
  case (Cons p ps)
  show ?case
  proof (cases i)
    case 0
    with Cons.prems show ?thesis by simp
  next
    case (Suc i')
    with Cons.prems(3) have p: "exists_path h (p @ [lit ''.git'']) = Inr False" by auto
    from Suc Cons.prems(3) have "\<forall>j<i'. exists_path h (ps ! j @ [lit ''.git'']) = Inr False"
      by auto
    with Cons.IH[of i'] Cons.prems(1,2) Suc p show ?thesis by simp
  qed
qed

lemma detect_repo_root_git:
  "git_rev_parse h start = Inr raw \<Longrightarrow> strip raw \<noteq> [] \<Longrightarrow> resolve h (strip raw) = Inr p \<Longrightarrow>
     detect_repo_root h start = Inr p"
  by (simp add: detect_repo_root_def git_toplevel_def Let_def)

lemma detect_repo_root_fallback:
  assumes "git_failed h start" "resolve h start = Inr cur"
  shows "detect_repo_root h start =
       (case find_git h (map (ancestor cur) [0..<Suc (length cur)]) of
          Inl e \<Rightarrow> Inl e
        | Inr (Some p) \<Rightarrow> Inr p
        | Inr None \<Rightarrow> Inr cur)"
proof -
  from assms(1) have "git_toplevel h start = Inr None \<or> (\<exists>e. git_toplevel h start = Inl e)"
    by (auto simp: git_failed_def split: sum.splits option.splits)
  with assms(2) have "detect_repo_root h start =
       (case find_git h (cur # parents cur) of
          Inl e \<Rightarrow> Inl e
        | Inr (Some p) \<Rightarrow> Inr p
        | Inr None \<Rightarrow> Inr cur)"
    unfolding detect_repo_root_def
    by (auto split: sum.splits option.splits simp del: find_git.simps)
  then show ?thesis by (simp only: chain_ancestors)
qed

lemma detect_repo_root_first:
  assumes "git_failed h start" "resolve h start = Inr cur" "i \<le> length cur"
    and "exists_path h (ancestor cur i @ [lit ''.git'']) = Inr True"
    and "\<forall>j<i. exists_path h (ancestor cur j @ [lit ''.git'']) = Inr False"
  shows "detect_repo_root h start = Inr (ancestor cur i)"
proof -
  let ?ps = "map (ancestor cur) [0..<Suc (length cur)]"
  from assms(3) have i: "i < length ?ps" by simp
  from assms(3) have n: "?ps ! i = ancestor cur i"
    by (simp add: nth_map_upt del: upt_Suc)
  have "\<forall>j<i. exists_path h (?ps ! j @ [lit ''.git'']) = Inr False"
  proof (intro allI impI)
    fix j assume "j < i"
    with assms(3,5) show "exists_path h (?ps ! j @ [lit ''.git'']) = Inr False"
      by (simp add: nth_map_upt del: upt_Suc)
  qed
  from find_git_first[OF i _ this] assms(4) n
  have "find_git h ?ps = Inr (Some (ancestor cur i))" by simp
  with detect_repo_root_fallback[OF assms(1,2)] show ?thesis by simp
qed

lemma detect_repo_root_none:
  assumes "git_failed h start" "resolve h start = Inr cur"
    and "\<forall>i \<le> length cur. exists_path h (ancestor cur i @ [lit ''.git'']) = Inr False"
  shows "detect_repo_root h start = Inr cur"
proof -
  let ?ps = "map (ancestor cur) [0..<Suc (length cur)]"
  have "\<forall>j<length ?ps. exists_path h (?ps ! j @ [lit ''.git'']) = Inr False"
  proof (intro allI impI)
    fix j assume "j < length ?ps"
    with assms(3) show "exists_path h (?ps ! j @ [lit ''.git'']) = Inr False"
      by (simp add: nth_map_upt del: upt_Suc)
  qed
  from find_git_none[OF this] detect_repo_root_fallback[OF assms(1,2)] show ?thesis by simp
qed

text \<open>
  What is outside the \<^verbatim>\<open>try\<close> block: when the query has failed, an exception of
  \<^verbatim>\<open>start.resolve()\<close>, or of the existence test at the nearest ancestor where the test does
  not return \<^verbatim>\<open>False\<close>, leaves \<^verbatim>\<open>detect_repo_root\<close>.
\<close>

lemma detect_repo_root_raises:
  "git_failed h start \<Longrightarrow> resolve h start = Inl e \<Longrightarrow> detect_repo_root h start = Inl e"
  "git_failed h start \<Longrightarrow> resolve h start = Inr cur \<Longrightarrow> i \<le> length cur \<Longrightarrow>
     exists_path h (ancestor cur i @ [lit ''.git'']) = Inl e \<Longrightarrow>
     \<forall>j<i. exists_path h (ancestor cur j @ [lit ''.git'']) = Inr False \<Longrightarrow>
     detect_repo_root h start = Inl e"
proof -
  assume f: "git_failed h start" and r: "resolve h start = Inl e"
  then show "detect_repo_root h start = Inl e"
    by (auto simp: detect_repo_root_def git_failed_def split: sum.splits option.splits)
next
  assume f: "git_failed h start" and r: "resolve h start = Inr cur" and i: "i \<le> length cur"
    and e: "exists_path h (ancestor cur i @ [lit ''.git'']) = Inl e"
    and n: "\<forall>j<i. exists_path h (ancestor cur j @ [lit ''.git'']) = Inr False"
  let ?ps = "map (ancestor cur) [0..<Suc (length cur)]"
  from i have i': "i < length ?ps" by simp
  from i have m: "?ps ! i = ancestor cur i"
    by (simp add: nth_map_upt del: upt_Suc)
  have "\<forall>j<i. exists_path h (?ps ! j @ [lit ''.git'']) = Inr False"
  proof (intro allI impI)
    fix j assume "j < i"
    with i n show "exists_path h (?ps ! j @ [lit ''.git'']) = Inr False"
      by (simp add: nth_map_upt del: upt_Suc)
  qed
  from find_git_raises[OF i' _ this] e m
  have "find_git h ?ps = Inl e" by simp
  with detect_repo_root_fallback[OF f r] show "detect_repo_root h start = Inl e" by simp
qed

lemma example_host_simps:
  "git_rev_parse (example_host g k) s = g"
  "resolve (example_host g k) (lit ''/repo/sub'') = Inr [lit ''repo'', lit ''sub'']"
  "resolve (example_host g k) (lit ''/repo'') = Inr [lit ''repo'']"
  "stat (example_host g k) [lit ''repo'', lit ''.git''] = k"
  "stat (example_host g k) [lit ''repo'', lit ''sub'', lit ''.git''] = Inr None"
  "stat (example_host g k) [lit ''.git''] = Inr None"
  by (simp_all add: example_host_def)

lemma strip_example:
  "strip (lit ''/repo'' @ [0xA0, 0x0A]) = lit ''/repo''" "strip (lit '' '') = []"
  "strip [0x3000] = []"
  by (simp_all add: strip_def isspace_def lit_def)

lemma detect_repo_root_raises_example:
  "detect_repo_root (example_host (Inl ToolNotFound) (Inl PermissionDenied)) (lit ''/repo/sub'')
     = Inl PermissionDenied"
  by (simp add: detect_repo_root_def git_toplevel_def example_host_simps parents_def
        exists_path_def upt_rec)

text \<open>
  C5, as stated: in the fallback the root returned is the first ancestor that contains a
  version-control metadata directory, and the resolved starting directory if no ancestor
  contains one. It fails where \<^verbatim>\<open>.git\<close> is a regular file, as in a worktree or a
  submodule: no ancestor of \<^verbatim>\<open>/repo/sub\<close> holds a \<^verbatim>\<open>.git\<close> directory, and the result is
  \<^verbatim>\<open>/repo\<close>, not \<^verbatim>\<open>/repo/sub\<close>.
\<close>

theorem detect_repo_root_git_file_counterexample:
  "git_rev_parse (example_host (Inl ToolNotFound) (Inr (Some IsFile))) (lit ''/repo/sub'')
     = Inl ToolNotFound
   \<and> resolve (example_host (Inl ToolNotFound) (Inr (Some IsFile))) (lit ''/repo/sub'')
       = Inr [lit ''repo'', lit ''sub'']
   \<and> find (has_git_directory (example_host (Inl ToolNotFound) (Inr (Some IsFile))))
        ([lit ''repo'', lit ''sub''] # parents [lit ''repo'', lit ''sub'']) = None
   \<and> detect_repo_root (example_host (Inl ToolNotFound) (Inr (Some IsFile))) (lit ''/repo/sub'')
       = Inr [lit ''repo'']
   \<and> detect_repo_root (example_host (Inl ToolNotFound) (Inr (Some IsFile))) (lit ''/repo/sub'')
       \<noteq> Inr [lit ''repo'', lit ''sub'']"
  by (simp add: example_host_simps has_git_directory_def parents_def detect_repo_root_def
        git_toplevel_def exists_path_def upt_rec)

text \<open>
  C5, amended. If the version-control query returns output that is not empty once stripped
  and that resolves, \<^verbatim>\<open>detect_repo_root\<close> returns that output, resolved. If the query fails
  and the starting directory resolves, then: when an entry named \<^verbatim>\<open>.git\<close>, of whatever kind,
  exists under an ancestor of the resolved starting directory, itself included, and the
  existence test returns \<^verbatim>\<open>False\<close> at every nearer ancestor, \<^verbatim>\<open>detect_repo_root\<close> returns that
  ancestor; when the existence test returns \<^verbatim>\<open>False\<close> at every ancestor, it returns the
  resolved starting directory. Nothing is said of a run in which resolving the starting
  directory or an existence test raises.
\<close>

theorem detect_repo_root_fallback_chain:
  "(\<forall>raw p. git_rev_parse h start = Inr raw \<and> strip raw \<noteq> [] \<and> resolve h (strip raw) = Inr p
          \<longrightarrow> detect_repo_root h start = Inr p)
   \<and> (git_failed h start \<and> resolve h start = Inr cur \<longrightarrow>
        (\<forall>i. i \<le> length cur
              \<and> exists_path h (ancestor cur i @ [lit ''.git'']) = Inr True
              \<and> (\<forall>j<i. exists_path h (ancestor cur j @ [lit ''.git'']) = Inr False)
            \<longrightarrow> detect_repo_root h start = Inr (ancestor cur i))
        \<and> ((\<forall>i \<le> length cur. exists_path h (ancestor cur i @ [lit ''.git'']) = Inr False)
            \<longrightarrow> detect_repo_root h start = Inr cur))"
proof (intro conjI allI impI)
  fix raw p
  assume "git_rev_parse h start = Inr raw \<and> strip raw \<noteq> [] \<and> resolve h (strip raw) = Inr p"
  then show "detect_repo_root h start = Inr p"
    by (simp add: detect_repo_root_git)
next
  fix i
  assume f: "git_failed h start \<and> resolve h start = Inr cur"
    and i: "i \<le> length cur
              \<and> exists_path h (ancestor cur i @ [lit ''.git'']) = Inr True
              \<and> (\<forall>j<i. exists_path h (ancestor cur j @ [lit ''.git'']) = Inr False)"
  then show "detect_repo_root h start = Inr (ancestor cur i)"
    by (intro detect_repo_root_first) simp_all
next
  assume f: "git_failed h start \<and> resolve h start = Inr cur"
    and n: "\<forall>i \<le> length cur. exists_path h (ancestor cur i @ [lit ''.git'']) = Inr False"
  then show "detect_repo_root h start = Inr cur"
    by (intro detect_repo_root_none) simp_all
qed

theorem detect_repo_root_fallback_chain_witness:
  "detect_repo_root (example_host (Inr (lit ''/repo'' @ [0xA0, 0x0A])) (Inr None))
       (lit ''/repo/sub'')
     = Inr [lit ''repo'']
   \<and> git_failed (example_host (Inl (CalledProcessError 128)) (Inr (Some IsDirectory)))
       (lit ''/repo/sub'')
   \<and> detect_repo_root (example_host (Inl (CalledProcessError 128)) (Inr (Some IsDirectory)))
       (lit ''/repo/sub'')
     = Inr [lit ''repo'']
   \<and> git_failed (example_host (Inr (lit '' '')) (Inr None)) (lit ''/repo/sub'')
   \<and> detect_repo_root (example_host (Inr (lit '' '')) (Inr None)) (lit ''/repo/sub'')
     = Inr [lit ''repo'', lit ''sub'']"
proof -
  let ?g = "example_host (Inr (lit ''/repo'' @ [0xA0, 0x0A])) (Inr None)"
  let ?d = "example_host (Inl (CalledProcessError 128)) (Inr (Some IsDirectory))"
  let ?n = "example_host (Inr (lit '' '')) (Inr None)"
  let ?s = "lit ''/repo/sub''"
  let ?cur = "[lit ''repo'', lit ''sub'']"
  have "git_rev_parse ?g ?s = Inr (lit ''/repo'' @ [0xA0, 0x0A])
      \<and> strip (lit ''/repo'' @ [0xA0, 0x0A]) \<noteq> []
      \<and> resolve ?g (strip (lit ''/repo'' @ [0xA0, 0x0A])) = Inr [lit ''repo'']"
    by (simp add: example_host_simps strip_example)
  with detect_repo_root_fallback_chain[of ?g ?s]
  have a: "detect_repo_root ?g ?s = Inr [lit ''repo'']"
    by blast
  have fd: "git_failed ?d ?s" and fn: "git_failed ?n ?s"
    by (simp_all add: git_failed_def git_toplevel_def example_host_simps strip_example)
  have rd: "resolve ?d ?s = Inr ?cur" and rn: "resolve ?n ?s = Inr ?cur"
    by (simp_all add: example_host_simps)
  have "1 \<le> length ?cur
      \<and> exists_path ?d (ancestor ?cur 1 @ [lit ''.git'']) = Inr True
      \<and> (\<forall>j<1. exists_path ?d (ancestor ?cur j @ [lit ''.git'']) = Inr False)"
    by (simp add: example_host_simps exists_path_def ancestor_def)
  with fd rd detect_repo_root_fallback_chain[of ?d ?s ?cur]
  have b: "detect_repo_root ?d ?s = Inr (ancestor ?cur 1)"
    by blast
  have "\<forall>i \<le> length ?cur. exists_path ?n (ancestor ?cur i @ [lit ''.git'']) = Inr False"
    by (simp add: example_host_simps exists_path_def ancestor_def le_Suc_eq)
  with fn rn detect_repo_root_fallback_chain[of ?n ?s ?cur]
  have c: "detect_repo_root ?n ?s = Inr ?cur"
    by blast
  from a b c fd fn show ?thesis by (simp add: ancestor_def)
qed

text \<open>
  C9. In the fallback an ancestor is accepted as soon as an entry named \<^verbatim>\<open>.git\<close> exists under
  it, of any kind \<open>k\<close>: a regular file as well as a directory. The result depends on the
  filesystem only through the existence tests: two hosts that differ only in the kinds of
  their entries give the same root.
\<close>

theorem fallback_accepts_any_kind:
  "(git_failed h start \<and> resolve h start = Inr cur \<and> i \<le> length cur
      \<and> stat h (ancestor cur i @ [lit ''.git'']) = Inr (Some k)
      \<and> (\<forall>j<i. stat h (ancestor cur j @ [lit ''.git'']) = Inr None)
    \<longrightarrow> detect_repo_root h start = Inr (ancestor cur i))
   \<and> (git_rev_parse h' = git_rev_parse h \<and> resolve h' = resolve h
      \<and> (\<forall>p. exists_path h' p = exists_path h p)
    \<longrightarrow> detect_repo_root h' start = detect_repo_root h start)"
proof (intro conjI impI)
  assume a: "git_failed h start \<and> resolve h start = Inr cur \<and> i \<le> length cur
      \<and> stat h (ancestor cur i @ [lit ''.git'']) = Inr (Some k)
      \<and> (\<forall>j<i. stat h (ancestor cur j @ [lit ''.git'']) = Inr None)"
  then show "detect_repo_root h start = Inr (ancestor cur i)"
    by (intro detect_repo_root_first) (simp_all add: exists_path_def)
next
  assume b: "git_rev_parse h' = git_rev_parse h \<and> resolve h' = resolve h
      \<and> (\<forall>p. exists_path h' p = exists_path h p)"
  then have e: "exists_path h' = exists_path h" by (simp add: fun_eq_iff)
  have fg: "find_git h' ps = find_git h ps" for ps
    by (induction ps) (simp_all add: e split: sum.splits)
  from b have g: "git_rev_parse h' = git_rev_parse h" and r: "resolve h' = resolve h"
    by simp_all
  show "detect_repo_root h' start = detect_repo_root h start"
    unfolding detect_repo_root_def git_toplevel_def fg g r by (rule refl)
qed

theorem fallback_accepts_any_kind_witness:
  "git_failed (example_host (Inl ToolNotFound) (Inr (Some IsFile))) (lit ''/repo/sub'')
   \<and> stat (example_host (Inl ToolNotFound) (Inr (Some IsFile))) [lit ''repo'', lit ''.git'']
       = Inr (Some IsFile)
   \<and> detect_repo_root (example_host (Inl ToolNotFound) (Inr (Some IsFile))) (lit ''/repo/sub'')
       = Inr [lit ''repo'']
   \<and> detect_repo_root (example_host (Inl ToolNotFound) (Inr (Some IsDirectory)))
         (lit ''/repo/sub'')
       = detect_repo_root (example_host (Inl ToolNotFound) (Inr (Some IsFile)))
           (lit ''/repo/sub'')"
proof -
  let ?f = "example_host (Inl ToolNotFound) (Inr (Some IsFile))"
  let ?d = "example_host (Inl ToolNotFound) (Inr (Some IsDirectory))"
  let ?s = "lit ''/repo/sub''"
  let ?cur = "[lit ''repo'', lit ''sub'']"
  have f: "git_failed ?f ?s"
    by (simp add: git_failed_def git_toplevel_def example_host_simps)
  have "git_failed ?f ?s \<and> resolve ?f ?s = Inr ?cur \<and> 1 \<le> length ?cur
      \<and> stat ?f (ancestor ?cur 1 @ [lit ''.git'']) = Inr (Some IsFile)
      \<and> (\<forall>j<1. stat ?f (ancestor ?cur j @ [lit ''.git'']) = Inr None)"
    using f by (simp add: example_host_simps ancestor_def)
  with fallback_accepts_any_kind[of ?f ?s ?cur 1 IsFile]
  have a: "detect_repo_root ?f ?s = Inr (ancestor ?cur 1)"
    by blast
  have "git_rev_parse ?d = git_rev_parse ?f \<and> resolve ?d = resolve ?f
      \<and> (\<forall>p. exists_path ?d p = exists_path ?f p)"
    by (simp add: example_host_def exists_path_def)
  with fallback_accepts_any_kind[where h = ?f and h' = ?d and start = ?s]
  have b: "detect_repo_root ?d ?s = detect_repo_root ?f ?s"
    by blast
  from a b f show ?thesis by (simp add: example_host_simps ancestor_def)
qed

end
